theory Spec2Isabelle
  imports
    Main
    "HOL-Library.Word"
    "HOL-Library.Multiset"
    "HOL-Library.Char_ord"
    "HOL-Library.List_Lexorder"
    "HOL-Library.Product_Lexorder"
begin

section \<open>The label counter of \<^verbatim>\<open>mars_label_stat.go\<close>\<close>

text \<open>
  A Go \<^verbatim>\<open>string\<close> is a sequence of bytes, as \<^typ>\<open>string\<close> is here; indexing and
  \<^verbatim>\<open>len\<close> count bytes. Go's \<^verbatim>\<open>int64\<close> is \<^typ>\<open>64 word\<close>: addition wraps, and
  comparisons read the word as two's complement (\<^const>\<open>sint\<close>).
\<close>

type_synonym int64 = "64 word"

subsection \<open>Library functions on strings\<close>

text \<open>
  \<^verbatim>\<open>line[a:b]\<close> for \<open>a \<le> b \<le> len(line)\<close>; the source only slices inside these bounds.
\<close>

definition slice :: "string \<Rightarrow> nat \<Rightarrow> nat \<Rightarrow> string" where
  "slice s a b = take (b - a) (drop a s)"

text \<open>
  \<^verbatim>\<open>strings.Index(s, sub)\<close>: the byte offset of the first occurrence of \<open>sub\<close>, or
  \<open>None\<close> where Go returns \<open>-1\<close>.
\<close>

primrec index_from :: "string \<Rightarrow> string \<Rightarrow> nat \<Rightarrow> nat option" where
  "index_from [] sub i = (if sub = [] then Some i else None)"
| "index_from (c # cs) sub i =
     (if take (length sub) (c # cs) = sub then Some i else index_from cs sub (Suc i))"

definition Index :: "string \<Rightarrow> string \<Rightarrow> nat option" where
  "Index s sub = index_from s sub 0"

text \<open>
  \<^verbatim>\<open>strings.TrimSpace\<close> removes leading and trailing Unicode white space. In UTF-8
  the white-space code points are the six ASCII ones, U+0085 and U+00A0 (two bytes) and
  U+1680, U+2000 to U+200A, U+2028, U+2029, U+202F, U+205F, U+3000 (three bytes).
  \<open>space_len s\<close> is the number of bytes of the white-space rune at the head of \<open>s\<close>,
  0 when there is none.
\<close>

definition ascii_space :: "char \<Rightarrow> bool" where
  "ascii_space c \<longleftrightarrow> c \<in> set [CHR 0x09, CHR 0x0A, CHR 0x0B, CHR 0x0C, CHR 0x0D, CHR 0x20]"

definition wide_spaces :: "string list" where
  "wide_spaces =
     [[CHR 0xC2, CHR 0x85], [CHR 0xC2, CHR 0xA0], [CHR 0xE1, CHR 0x9A, CHR 0x80],
      [CHR 0xE2, CHR 0x80, CHR 0x80], [CHR 0xE2, CHR 0x80, CHR 0x81],
      [CHR 0xE2, CHR 0x80, CHR 0x82], [CHR 0xE2, CHR 0x80, CHR 0x83],
      [CHR 0xE2, CHR 0x80, CHR 0x84], [CHR 0xE2, CHR 0x80, CHR 0x85],
      [CHR 0xE2, CHR 0x80, CHR 0x86], [CHR 0xE2, CHR 0x80, CHR 0x87],
      [CHR 0xE2, CHR 0x80, CHR 0x88], [CHR 0xE2, CHR 0x80, CHR 0x89],
      [CHR 0xE2, CHR 0x80, CHR 0x8A], [CHR 0xE2, CHR 0x80, CHR 0xA8],
      [CHR 0xE2, CHR 0x80, CHR 0xA9], [CHR 0xE2, CHR 0x80, CHR 0xAF],
      [CHR 0xE2, CHR 0x81, CHR 0x9F], [CHR 0xE3, CHR 0x80, CHR 0x80]]"

definition space_len :: "string \<Rightarrow> nat" where
  "space_len s =
     (case s of
        [] \<Rightarrow> 0
      | c # _ \<Rightarrow>
          if ascii_space c then 1
          else if take 2 s \<in> set wide_spaces then 2
          else if take 3 s \<in> set wide_spaces then 3
          else 0)"

text \<open>The same for the rune at the end of \<open>s\<close>, read backwards.\<close>

definition space_len_last :: "string \<Rightarrow> nat" where
  "space_len_last s =
     (case rev s of
        [] \<Rightarrow> 0
      | c # _ \<Rightarrow>
          if ascii_space c then 1
          else if rev (take 2 (rev s)) \<in> set wide_spaces then 2
          else if rev (take 3 (rev s)) \<in> set wide_spaces then 3
          else 0)"

function TrimLeft :: "string \<Rightarrow> string" where
  "TrimLeft s = (if 0 < space_len s then TrimLeft (drop (space_len s) s) else s)"
  by pat_completeness auto
termination
proof (relation "measure length")
  fix s :: string
  assume pos: "0 < space_len s"
  then have "s \<noteq> []"
    by (auto simp: space_len_def)
  with pos show "(drop (space_len s) s, s) \<in> measure length"
    by simp
qed simp

function TrimRight :: "string \<Rightarrow> string" where
  "TrimRight s =
     (if 0 < space_len_last s then TrimRight (take (length s - space_len_last s) s) else s)"
  by pat_completeness auto
termination
proof (relation "measure length")
  fix s :: string
  assume pos: "0 < space_len_last s"
  then have "s \<noteq> []"
    by (auto simp: space_len_last_def)
  with pos show "(take (length s - space_len_last s) s, s) \<in> measure length"
    by simp
qed simp

declare TrimLeft.simps [simp del] TrimRight.simps [simp del]

definition TrimSpace :: "string \<Rightarrow> string" where
  "TrimSpace s = TrimRight (TrimLeft s)"

subsection \<open>The fast extractor\<close>

text \<open>
  \<^verbatim>\<open>for start < len(line) && (line[start] == ' ' || line[start] == '\t' || line[start] == '\n')\<close>
\<close>

function skip_blanks :: "string \<Rightarrow> nat \<Rightarrow> nat" where
  "skip_blanks line start =
     (if start < length line \<and>
         (line ! start = CHR 0x20 \<or> line ! start = CHR 0x09 \<or> line ! start = CHR 0x0A)
      then skip_blanks line (start + 1) else start)"
  by pat_completeness auto
termination
  by (relation "measure (\<lambda>(line, start). length line - start)") auto

text \<open>
  The loop of both quoted branches, for the quote character \<open>q\<close>: a backslash that is
  not the last byte skips itself and the next byte.
\<close>

function scan_quoted :: "char \<Rightarrow> string \<Rightarrow> nat \<Rightarrow> nat" where
  "scan_quoted q line end =
     (if end < length line \<and> line ! end \<noteq> q then
        (if line ! end = CHR 0x5C \<and> end + 1 < length line
         then scan_quoted q line (end + 2)
         else scan_quoted q line (end + 1))
      else end)"
  by pat_completeness auto
termination
  by (relation "measure (\<lambda>(q, line, end). length line - end)") auto

text \<open>
  \<^verbatim>\<open>for end < len(line) && line[end] != ',' && line[end] != '}' && line[end] != '\n'\<close>
\<close>

function scan_plain :: "string \<Rightarrow> nat \<Rightarrow> nat" where
  "scan_plain line end =
     (if end < length line \<and> line ! end \<noteq> CHR '','' \<and> line ! end \<noteq> CHR ''}'' \<and>
         line ! end \<noteq> CHR 0x0A
      then scan_plain line (end + 1) else end)"
  by pat_completeness auto
termination
  by (relation "measure (\<lambda>(line, end). length line - end)") auto

declare skip_blanks.simps [simp del] scan_quoted.simps [simp del] scan_plain.simps [simp del]

text \<open>The pattern the fast extractor searches for: the eight bytes \<^verbatim>\<open>"label":\<close>.\<close>

definition labelKey_pattern :: string where
  "labelKey_pattern = CHR 0x22 # ''label'' @ [CHR 0x22, CHR '':'']"

text \<open>The last step: one layer of surrounding quotes is removed.\<close>

definition strip_quotes :: "string \<Rightarrow> string" where
  "strip_quotes v =
     (if 2 \<le> length v \<and>
         ((v ! 0 = CHR 0x22 \<and> v ! (length v - 1) = CHR 0x22) \<or>
          (v ! 0 = CHR 0x27 \<and> v ! (length v - 1) = CHR 0x27))
      then slice v 1 (length v - 1) else v)"

text \<open>
  The tail of \<^verbatim>\<open>fastExtractLabel\<close>, reached for an unquoted value and also for a quoted
  one whose closing quote is missing.
\<close>

definition plain_value :: "string \<Rightarrow> nat \<Rightarrow> string" where
  "plain_value line start =
     strip_quotes (TrimSpace (slice line start (scan_plain line start)))"

definition fastExtractLabel :: "string \<Rightarrow> string" where
  "fastExtractLabel line =
     (case Index line labelKey_pattern of
        None \<Rightarrow> ''''
      | Some pos \<Rightarrow>
          let start = skip_blanks line (pos + length labelKey_pattern) in
          if start \<ge> length line then ''''
          else
            let firstChar = line ! start in
            if firstChar = CHR 0x22 \<and> scan_quoted (CHR 0x22) line (start + 1) < length line
            then slice line (start + 1) (scan_quoted (CHR 0x22) line (start + 1))
            else if firstChar = CHR 0x27 \<and> scan_quoted (CHR 0x27) line (start + 1) < length line
            then slice line (start + 1) (scan_quoted (CHR 0x27) line (start + 1))
            else plain_value line start)"

subsection \<open>Go maps from labels to counts\<close>

text \<open>
  A \<^verbatim>\<open>map[string]int64\<close> is an association list with one entry for each key; the order
  of the list stands for the order in which \<^verbatim>\<open>range\<close> happens to iterate, which Go
  leaves open. Two lists are the same Go map when \<^const>\<open>map_of\<close> agrees on them.
  \<open>add_count label c m\<close> is \<^verbatim>\<open>m[label] += c\<close>: a missing key reads as zero and is
  created.
\<close>

type_synonym counts = "(string \<times> int64) list"

fun add_count :: "string \<Rightarrow> int64 \<Rightarrow> counts \<Rightarrow> counts" where
  "add_count label c [] = [(label, 0 + c)]"
| "add_count label c ((k, v) # m) =
     (if k = label then (k, v + c) # m else (k, v) # add_count label c m)"

subsection \<open>The full-parse extractor\<close>

text \<open>
  A \<^verbatim>\<open>float64\<close> that \<^verbatim>\<open>json.Unmarshal\<close> can produce is finite. It is given here by
  what \<^verbatim>\<open>strconv\<close> computes from it before it formats: the sign, the shortest string of
  decimal digits \<open>d\<close> that parses back to the same float (empty for zero) and the position
  \<open>dp\<close> of the decimal point, so that the value is \<open>0.d\<close> times ten to the power \<open>dp\<close>.
  One is \<open>Float64 False ''1'' 1\<close> and 1.5 is \<open>Float64 False ''15'' 1\<close>.
\<close>

datatype float64 = Float64 bool string int

text \<open>
  \<^verbatim>\<open>fmt.Sprintf("%g", v)\<close> is \<^verbatim>\<open>strconv.FormatFloat(v, 'g', -1, 64)\<close>, modelled from the
  documentation and the source of Go's \<^verbatim>\<open>strconv\<close>. \<open>fmtF\<close> writes the digits with
  \<open>prec\<close> digits after the point and \<open>fmtE\<close> writes them with an exponent of at least
  two digits; with the shortest digits, the exponent form is taken when the decimal
  exponent \<open>dp - 1\<close> is below -4 or at least 6.
\<close>

definition fmtF :: "bool \<Rightarrow> string \<Rightarrow> int \<Rightarrow> nat \<Rightarrow> string" where
  "fmtF neg d dp prec =
     (if neg then ''-'' else []) @
     (if dp > 0
      then take (min (length d) (nat dp)) d @
           replicate (nat dp - min (length d) (nat dp)) CHR ''0''
      else ''0'') @
     (if prec > 0
      then ''.'' @
           map (\<lambda>i. if 0 \<le> dp + int i \<and> dp + int i < int (length d)
                    then d ! nat (dp + int i) else CHR ''0'') [0..<prec]
      else [])"

definition exp_digits :: "nat \<Rightarrow> string" where
  "exp_digits e =
     (if e < 10 then [CHR ''0'', char_of (e + 48)]
      else if e < 100 then [char_of (e div 10 + 48), char_of (e mod 10 + 48)]
      else [char_of (e div 100 + 48), char_of (e div 10 mod 10 + 48), char_of (e mod 10 + 48)])"

definition fmtE :: "bool \<Rightarrow> string \<Rightarrow> int \<Rightarrow> int \<Rightarrow> string" where
  "fmtE neg d dp prec =
     (if neg then ''-'' else []) @
     [if d \<noteq> [] then d ! 0 else CHR ''0''] @
     (if prec > 0
      then ''.'' @ take (min (length d) (nat prec + 1) - 1) (drop 1 d) @
           replicate (nat prec + 1 - max 1 (min (length d) (nat prec + 1))) CHR ''0''
      else []) @
     ''e'' @
     (let exp = (if d = [] then 0 else dp - 1)
      in if exp < 0 then ''-'' @ exp_digits (nat (- exp)) else ''+'' @ exp_digits (nat exp))"

fun Sprintf_g :: "float64 \<Rightarrow> string" where
  "Sprintf_g (Float64 neg d dp) =
     (if dp - 1 < - 4 \<or> dp - 1 \<ge> 6 then fmtE neg d dp (int (length d) - 1)
      else fmtF neg d dp (nat (max (int (length d) - dp) 0)))"

text \<open>
  What \<^verbatim>\<open>json.Unmarshal\<close> stores in an \<^verbatim>\<open>interface{}\<close>: nil, bool, float64, string,
  a slice or a map. It never stores an \<^verbatim>\<open>int\<close>, so the \<^verbatim>\<open>case int\<close> of the type
  switch has no value to match.
\<close>

datatype jvalue =
    JNull
  | JBool bool
  | JNumber float64
  | JString string
  | JArray "jvalue list"
  | JObject "(string \<times> jvalue) list"

text \<open>
  Two functions of Go's standard library that the full-parse branch calls are
  parameters: \<open>Unmarshal line\<close> is the decoded object, \<open>None\<close> when \<^verbatim>\<open>json.Unmarshal\<close>
  returns an error, and \<open>Sprintf_v\<close> is \<^verbatim>\<open>fmt.Sprintf("%v", v)\<close> on the values of the
  default case.
\<close>

record stdlib =
  Unmarshal :: "string \<Rightarrow> (string \<rightharpoonup> jvalue) option"
  Sprintf_v :: "jvalue \<Rightarrow> string"

text \<open>The type switch of \<^verbatim>\<open>processFile\<close>; \<^verbatim>\<open>%v\<close> prints a bool as true or false.\<close>

fun label_text :: "stdlib \<Rightarrow> jvalue \<Rightarrow> string" where
  "label_text lib (JString v) = v"
| "label_text lib (JNumber v) = Sprintf_g v"
| "label_text lib (JBool v) = (if v then ''true'' else ''false'')"
| "label_text lib v = Sprintf_v lib v"

text \<open>
  The label of one non-empty line. \<open>None\<close> is the \<^verbatim>\<open>continue\<close> taken when the line is
  not valid JSON; a missing key leaves \<^verbatim>\<open>label\<close> at its zero value, the empty string.
  The fast branch calls \<^const>\<open>fastExtractLabel\<close> on the line alone.
\<close>

definition extract_label :: "stdlib \<Rightarrow> string \<Rightarrow> bool \<Rightarrow> string \<Rightarrow> string option" where
  "extract_label lib labelKey fastParse line =
     (if fastParse then Some (fastExtractLabel line)
      else
        (case Unmarshal lib line of
           None \<Rightarrow> None
         | Some data \<Rightarrow>
             (case data labelKey of
                Some labelVal \<Rightarrow> Some (label_text lib labelVal)
              | None \<Rightarrow> Some [])))"

subsection \<open>Processing one file\<close>

text \<open>
  What the operating system gives for a path: either \<^verbatim>\<open>os.Open\<close> fails with a cause,
  or the scanner yields some lines and then stops, at the end of the file (\<open>None\<close>) or
  with the error that \<^verbatim>\<open>scanner.Err()\<close> reports (an I/O error, or a line above the 10 MB
  limit).
\<close>

datatype file_content = CannotOpen string | Opened "string list" "string option"

text \<open>
  The two errors \<^verbatim>\<open>processFile\<close> builds with \<^verbatim>\<open>fmt.Errorf\<close>: the first carries the
  cause only, the second the file path and the cause.
\<close>

datatype file_error = OpenFailed string | ReadFailed string string

text \<open>The body of \<^verbatim>\<open>for scanner.Scan()\<close>, on the state \<open>(counts, lineCount)\<close>.\<close>

fun scan_lines ::
  "stdlib \<Rightarrow> string \<Rightarrow> bool \<Rightarrow> string list \<Rightarrow> counts \<times> int64 \<Rightarrow> counts \<times> int64" where
  "scan_lines lib labelKey fastParse [] acc = acc"
| "scan_lines lib labelKey fastParse (line # rest) (counts, lineCount) =
     (if line = [] then scan_lines lib labelKey fastParse rest (counts, lineCount)
      else
        (case extract_label lib labelKey fastParse line of
           None \<Rightarrow> scan_lines lib labelKey fastParse rest (counts, lineCount)
         | Some label \<Rightarrow>
             if label \<noteq> []
             then scan_lines lib labelKey fastParse rest (add_count label 1 counts, lineCount + 1)
             else scan_lines lib labelKey fastParse rest (counts, lineCount)))"

definition processFile ::
  "stdlib \<Rightarrow> (string \<Rightarrow> file_content) \<Rightarrow> string \<Rightarrow> string \<Rightarrow> bool \<Rightarrow> counts \<times> int64 \<times> file_error option" where
  "processFile lib fs filePath labelKey fastParse =
     (case fs filePath of
        CannotOpen cause \<Rightarrow> ([], 0, Some (OpenFailed cause))
      | Opened lines err \<Rightarrow>
          (case scan_lines lib labelKey fastParse lines ([], 0) of
             (counts, lineCount) \<Rightarrow>
               (case err of
                  Some cause \<Rightarrow> (counts, lineCount, Some (ReadFailed filePath cause))
                | None \<Rightarrow> (counts, lineCount, None))))"

record Job =
  FilePath :: string
  Job_LabelKey :: string

record WorkerResult =
  Counts :: counts
  Lines :: int64
  Error :: "file_error option"

text \<open>What a worker sends to the result channel for one job.\<close>

definition worker :: "stdlib \<Rightarrow> (string \<Rightarrow> file_content) \<Rightarrow> bool \<Rightarrow> Job \<Rightarrow> WorkerResult" where
  "worker lib fs fastParse job =
     (case processFile lib fs (FilePath job) (Job_LabelKey job) fastParse of
        (counts, lines, err) \<Rightarrow> \<lparr>Counts = counts, Lines = lines, Error = err\<rparr>)"

subsection \<open>Collecting the files\<close>

text \<open>
  The directory tree under the root. \<open>Unreadable name cause\<close> is an entry for which
  \<^verbatim>\<open>filepath.Walk\<close> hands an error to the callback: \<^verbatim>\<open>Lstat\<close> failed on it, or it is a
  directory that cannot be listed. The entries of a directory are in the order of the
  walk.
\<close>

datatype node = File string | Dir string "node list" | Unreadable string string

fun node_name :: "node \<Rightarrow> string" where
  "node_name (File name) = name"
| "node_name (Dir name entries) = name"
| "node_name (Unreadable name cause) = name"

text \<open>
  \<^verbatim>\<open>filepath.Ext\<close>: the suffix from the last dot of the last path element, scanning
  backwards from the end and stopping at a separator.
\<close>

fun ext_from :: "string \<Rightarrow> nat \<Rightarrow> string" where
  "ext_from path 0 = []"
| "ext_from path (Suc i) =
     (if path ! i = CHR ''/'' then []
      else if path ! i = CHR ''.'' then drop i path
      else ext_from path i)"

definition Ext :: "string \<Rightarrow> string" where
  "Ext path = ext_from path (length path)"

text \<open>
  \<^verbatim>\<open>strings.ToLower\<close> on the bytes A to Z. Go also lowers letters outside ASCII; none
  of them lowers to a byte of \<^verbatim>\<open>.json\<close> or \<^verbatim>\<open>.jsonl\<close>, so the comparison below is the
  same.
\<close>

definition lower_byte :: "char \<Rightarrow> char" where
  "lower_byte c =
     (if CHR ''A'' \<le> c \<and> c \<le> CHR ''Z'' then char_of (of_char c + (32 :: nat)) else c)"

definition ToLower :: "string \<Rightarrow> string" where
  "ToLower s = map lower_byte s"

definition is_json_name :: "string \<Rightarrow> bool" where
  "is_json_name name =
     (let ext = ToLower (Ext name) in ext = ''.jsonl'' \<or> ext = ''.json'')"

text \<open>
  \<^verbatim>\<open>filepath.Clean\<close> on a path with the separator \<^verbatim>\<open>/\<close>: empty elements and \<^verbatim>\<open>.\<close>
  are dropped, \<^verbatim>\<open>..\<close> removes the element before it (at the start of a rooted path it
  is dropped, at the start of another path it stays), and the empty result is \<^verbatim>\<open>.\<close>
\<close>

fun elements :: "string \<Rightarrow> string list" where
  "elements [] = [[]]"
| "elements (c # cs) =
     (if c = CHR ''/'' then [] # elements cs
      else (case elements cs of [] \<Rightarrow> [[c]] | e # es \<Rightarrow> (c # e) # es))"

definition clean_element :: "bool \<Rightarrow> string list \<Rightarrow> string \<Rightarrow> string list" where
  "clean_element rooted kept e =
     (if e = [] \<or> e = ''.'' then kept
      else if e = ''..'' then
        (if kept \<noteq> [] \<and> last kept \<noteq> ''..'' then butlast kept
         else if rooted then kept
         else kept @ [e])
      else kept @ [e])"

fun join_elements :: "string list \<Rightarrow> string" where
  "join_elements [] = []"
| "join_elements [e] = e"
| "join_elements (e # es) = e @ ''/'' @ join_elements es"

definition Clean :: "string \<Rightarrow> string" where
  "Clean path =
     (let rooted = (path \<noteq> [] \<and> hd path = CHR ''/'');
          out = (if rooted then ''/'' else []) @
                join_elements (foldl (clean_element rooted) [] (elements path))
      in if out = [] then ''.'' else out)"

text \<open>
  \<^verbatim>\<open>filepath.Join\<close> of a directory path and an entry name: empty arguments are
  ignored, the others are joined with the separator and the result is cleaned.
\<close>

definition Join :: "string \<Rightarrow> string \<Rightarrow> string" where
  "Join dir name =
     (if dir = [] \<and> name = [] then []
      else if dir = [] then Clean name
      else if name = [] then Clean dir
      else Clean (dir @ ''/'' @ name))"

text \<open>
  \<^verbatim>\<open>filepath.Walk\<close> with the callback of \<^verbatim>\<open>collectJSONLFiles\<close>, on the slice
  \<^verbatim>\<open>files\<close>. The callback returns the error it is given, which ends the walk; the files
  appended so far stay in the slice.
\<close>

fun walk :: "string \<Rightarrow> node \<Rightarrow> string list \<Rightarrow> string list \<times> string option"
  and walk_entries :: "string \<Rightarrow> node list \<Rightarrow> string list \<Rightarrow> string list \<times> string option" where
  "walk path (File name) files = (if is_json_name name then files @ [path] else files, None)"
| "walk path (Unreadable name cause) files = (files, Some cause)"
| "walk path (Dir name entries) files = walk_entries path entries files"
| "walk_entries path [] files = (files, None)"
| "walk_entries path (e # es) files =
     (case walk (Join path (node_name e)) e files of
        (files', Some cause) \<Rightarrow> (files', Some cause)
      | (files', None) \<Rightarrow> walk_entries path es files')"

definition collectJSONLFiles :: "node \<Rightarrow> string \<Rightarrow> string list \<times> string option" where
  "collectJSONLFiles tree directory = walk directory tree []"

subsection \<open>Aggregation and ranking\<close>

record Config =
  LabelKey :: string
  Workers :: int
  BatchSize :: int
  UseFastParse :: bool
  Output :: string
  OutputSuffix :: string

record LabelCount =
  Label :: string
  Count :: int64

text \<open>
  The result of a run. The two timing fields of the Go struct (\<^verbatim>\<open>ProcessingTime\<close>,
  \<^verbatim>\<open>LinesPerSecond\<close>) depend on the clock and are left out. \<open>Errors\<close> holds the errors
  whose messages the Go slice holds.
\<close>

record Result =
  Directory :: string
  FilesProcessed :: int
  TotalLines :: int64
  UniqueLabels :: int
  LabelCounts :: counts
  SortedLabels :: "LabelCount list"
  Errors :: "file_error list"

datatype run_error = CollectFailed string | NoFilesFound

text \<open>\<^verbatim>\<open>for label, count := range result.Counts { totalCounts[label] += count }\<close>\<close>

definition merge_counts :: "counts \<Rightarrow> counts \<Rightarrow> counts" where
  "merge_counts totalCounts cs = fold (\<lambda>(label, count). add_count label count) cs totalCounts"

text \<open>
  The loop over the result channel, on the state \<open>(totalCounts, totalLines, errors)\<close>:
  a result with an error adds its message and nothing else.
\<close>

fun collect_results ::
  "WorkerResult list \<Rightarrow> counts \<times> int64 \<times> file_error list \<Rightarrow> counts \<times> int64 \<times> file_error list" where
  "collect_results [] acc = acc"
| "collect_results (result # rest) (totalCounts, totalLines, errors) =
     (case Error result of
        Some e \<Rightarrow> collect_results rest (totalCounts, totalLines, errors @ [e])
      | None \<Rightarrow>
          collect_results rest
            (merge_counts totalCounts (Counts result), totalLines + Lines result, errors))"

text \<open>The comparison given to \<^verbatim>\<open>sort.Slice\<close>.\<close>

definition label_less :: "LabelCount \<Rightarrow> LabelCount \<Rightarrow> bool" where
  "label_less a b =
     (if Count a = Count b then Label a < Label b else sint (Count a) > sint (Count b))"

text \<open>
  \<^verbatim>\<open>sort.Slice\<close> is modelled by insertion sort. Which algorithm Go runs does not matter
  here: \<^const>\<open>label_less\<close> is a strict linear order, so a list has one sorted
  arrangement.
\<close>

fun insert_by :: "('a \<Rightarrow> 'a \<Rightarrow> bool) \<Rightarrow> 'a \<Rightarrow> 'a list \<Rightarrow> 'a list" where
  "insert_by lt x [] = [x]"
| "insert_by lt x (y # ys) = (if lt y x then y # insert_by lt x ys else x # y # ys)"

definition sort_Slice :: "('a \<Rightarrow> 'a \<Rightarrow> bool) \<Rightarrow> 'a list \<Rightarrow> 'a list" where
  "sort_Slice lt xs = foldr (insert_by lt) xs []"

definition rank_labels :: "counts \<Rightarrow> LabelCount list" where
  "rank_labels totalCounts =
     sort_Slice label_less (map (\<lambda>(label, count). \<lparr>Label = label, Count = count\<rparr>) totalCounts)"

subsection \<open>The run\<close>

text \<open>
  \<open>arrival\<close> is the order in which the results of the jobs reach the aggregator: the
  scheduler picks a permutation of the jobs. With no worker (\<open>Workers \<le> 0\<close>) the job
  channel is filled and closed, the result channel is closed at once, and the loop over
  the results sees nothing.
\<close>

definition countLabels ::
  "stdlib \<Rightarrow> node \<Rightarrow> (string \<Rightarrow> file_content) \<Rightarrow> (Job list \<Rightarrow> Job list) \<Rightarrow> Config \<Rightarrow> string \<Rightarrow>
     run_error + Result" where
  "countLabels lib tree fs arrival config directory =
     (case collectJSONLFiles tree directory of
        (files, Some cause) \<Rightarrow> Inl (CollectFailed cause)
      | (files, None) \<Rightarrow>
          if length files = 0 then Inl NoFilesFound
          else
            let jobs = map (\<lambda>path. \<lparr>FilePath = path, Job_LabelKey = LabelKey config\<rparr>) files;
                results =
                  (if Workers config \<le> 0 then []
                   else map (worker lib fs (UseFastParse config)) (arrival jobs))
            in
              (case collect_results results ([], 0, []) of
                 (totalCounts, totalLines, errors) \<Rightarrow>
                   Inr \<lparr>Directory = directory,
                        FilesProcessed = int (length files),
                        TotalLines = totalLines,
                        UniqueLabels = int (length totalCounts),
                        LabelCounts = totalCounts,
                        SortedLabels = rank_labels totalCounts,
                        Errors = errors\<rparr>))"

section \<open>Notions used in the statements\<close>

text \<open>The keys of a count map, and the count it holds for a key (zero when absent).\<close>

definition keys_of :: "counts \<Rightarrow> string set" where
  "keys_of m = set (map fst m)"

definition count_of :: "counts \<Rightarrow> string \<Rightarrow> int64" where
  "count_of m k = (case map_of m k of None \<Rightarrow> 0 | Some v \<Rightarrow> v)"

text \<open>The sum of the entries of \<open>cs\<close> under the key \<open>k\<close>.\<close>

definition entry_sum :: "counts \<Rightarrow> string \<Rightarrow> int64" where
  "entry_sum cs k = sum_list (map snd (filter (\<lambda>e. fst e = k) cs))"

text \<open>
  A tree on which the walk fails has an unreadable entry somewhere; \<open>json_files\<close> lists
  the paths of all files of the tree whose lower-cased extension is \<^verbatim>\<open>.jsonl\<close> or
  \<^verbatim>\<open>.json\<close>.
\<close>

fun has_unreadable :: "node \<Rightarrow> bool" where
  "has_unreadable (File name) = False"
| "has_unreadable (Unreadable name cause) = True"
| "has_unreadable (Dir name entries) = list_ex has_unreadable entries"

fun json_files :: "string \<Rightarrow> node \<Rightarrow> string list" where
  "json_files path (File name) = (if is_json_name name then [path] else [])"
| "json_files path (Unreadable name cause) = []"
| "json_files path (Dir name entries) =
     concat (map (\<lambda>e. json_files (Join path (node_name e)) e) entries)"

text \<open>
  The values that the lines of one file yield, in the words of the specification: the
  non-empty values that the extractor returns on the non-empty lines.
\<close>

definition counted_values :: "stdlib \<Rightarrow> string \<Rightarrow> bool \<Rightarrow> string list \<Rightarrow> string list" where
  "counted_values lib key fast lines =
     filter (\<lambda>v. v \<noteq> [])
       (List.map_filter (extract_label lib key fast) (filter (\<lambda>line. line \<noteq> []) lines))"

text \<open>The values of a list of jobs: those of the files that are scanned to their end.\<close>

definition run_values ::
  "stdlib \<Rightarrow> (string \<Rightarrow> file_content) \<Rightarrow> bool \<Rightarrow> Job list \<Rightarrow> string list" where
  "run_values lib fs fast jobs =
     concat (map (\<lambda>job.
       case fs (FilePath job) of
         Opened lines None \<Rightarrow> counted_values lib (Job_LabelKey job) fast lines
       | _ \<Rightarrow> []) jobs)"

text \<open>The values counted by a whole run; none when there is no worker.\<close>

definition counted_in_run ::
  "stdlib \<Rightarrow> node \<Rightarrow> (string \<Rightarrow> file_content) \<Rightarrow> (Job list \<Rightarrow> Job list) \<Rightarrow> Config \<Rightarrow> string \<Rightarrow>
     string list" where
  "counted_in_run lib tree fs arrival config directory =
     (if Workers config \<le> 0 then []
      else run_values lib fs (UseFastParse config)
        (arrival (map (\<lambda>path. \<lparr>FilePath = path, Job_LabelKey = LabelKey config\<rparr>)
           (fst (collectJSONLFiles tree directory)))))"

text \<open>Counting a list of values one by one into a map.\<close>

definition tally :: "string list \<Rightarrow> counts \<Rightarrow> counts" where
  "tally vs c = fold (\<lambda>v. add_count v 1) vs c"

text \<open>
  The position of an entry in the ranking as a pair ordered lexicographically: the
  negated count first, then the label in the byte order of strings.
\<close>

definition rank_key :: "LabelCount \<Rightarrow> int \<times> string" where
  "rank_key a = (- sint (Count a), Label a)"

text \<open>The entries of a count map as the ranking receives them.\<close>

definition entries :: "counts \<Rightarrow> LabelCount list" where
  "entries totalCounts = map (\<lambda>(label, count). \<lparr>Label = label, Count = count\<rparr>) totalCounts"

section \<open>A small corpus\<close>

text \<open>
  A decoder that knows the lines of the examples below, standing for
  \<^verbatim>\<open>json.Unmarshal\<close>; the unterminated object is the one line it rejects explicitly.
\<close>

definition example_lib :: stdlib where
  \<open>example_lib =
     \<lparr>Unmarshal = (\<lambda>line.
        if line = ''{"label":"cat"}'' then Some [''label'' \<mapsto> JString ''cat'']
        else if line = ''{"label":"dog"}'' then Some [''label'' \<mapsto> JString ''dog'']
        else if line = ''{"label":true}'' then Some [''label'' \<mapsto> JBool True]
        else if line = ''{"x":"y"}'' then Some [''x'' \<mapsto> JString ''y'']
        else if line = ''{"name":"x","label":"y"}''
        then Some [''name'' \<mapsto> JString ''x'', ''label'' \<mapsto> JString ''y'']
        else if line = ''{"name":"x"}'' then Some [''name'' \<mapsto> JString ''x'']
        else if line = ''{"label":"y"}'' then Some [''label'' \<mapsto> JString ''y'']
        else if line = ''{"label":1000000}''
        then Some [''label'' \<mapsto> JNumber (Float64 False ''1'' 7)]
        else if line = ''{"label":1.5}''
        then Some [''label'' \<mapsto> JNumber (Float64 False ''15'' 1)]
        else if line = ''{"label": "x"'' then None
        else None),
      Sprintf_v = (\<lambda>v. [])\<rparr>\<close>

definition example_tree :: node where
  "example_tree =
     Dir ''data'' [File ''a.jsonl'', Dir ''sub'' [File ''b.JSON'', File ''notes.txt'']]"

definition example_fs :: "string \<Rightarrow> file_content" where
  \<open>example_fs path =
     (if path = ''data/a.jsonl''
      then Opened [''{"label":"cat"}'', [], ''{"x":"y"}'', ''{"label":"dog"}'',
                   ''{"label":"cat"}''] None
      else if path = ''data/sub/b.JSON''
      then Opened [''{"label":"cat"}'', ''{"label":"dog"}''] (Some ''unexpected EOF'')
      else CannotOpen ''no such file'')\<close>

definition example_config :: Config where
  "example_config =
     \<lparr>LabelKey = ''label'', Workers = 2, BatchSize = 10000, UseFastParse = True,
      Output = [], OutputSuffix = ''_label_stats.json''\<rparr>"

text \<open>The report of the run on this corpus: the second file fails after two lines.\<close>

definition example_report :: Result where
  "example_report =
     \<lparr>Directory = ''data'', FilesProcessed = 2, TotalLines = 3, UniqueLabels = 2,
      LabelCounts = [(''cat'', 2), (''dog'', 1)],
      SortedLabels = [\<lparr>Label = ''cat'', Count = 2\<rparr>, \<lparr>Label = ''dog'', Count = 1\<rparr>],
      Errors = [ReadFailed ''data/sub/b.JSON'' ''unexpected EOF'']\<rparr>"

text \<open>Two trees on which no run starts: one with an entry that cannot be read, one
  without any JSON file.\<close>

definition example_broken_tree :: node where
  "example_broken_tree =
     Dir ''data'' [File ''a.jsonl'', Unreadable ''locked'' ''permission denied'']"

definition example_empty_tree :: node where
  "example_empty_tree = Dir ''data'' [File ''notes.txt'', Dir ''sub'' []]"

text \<open>Three results as they may reach the aggregator; the last one carries an error.\<close>

definition example_results :: "WorkerResult list" where
  "example_results =
     [\<lparr>Counts = [(''a'', 1), (''b'', 2)], Lines = 3, Error = None\<rparr>,
      \<lparr>Counts = [(''b'', 1)], Lines = 1, Error = None\<rparr>,
      \<lparr>Counts = [(''c'', 9)], Lines = 9, Error = Some (OpenFailed ''no such file'')\<rparr>]"

section \<open>Properties of the count maps\<close>

lemma keys_add_count: "keys_of (add_count k c m) = insert k (keys_of m)"
  by (induction k c m rule: add_count.induct) (simp_all add: keys_of_def insert_commute)

lemma count_of_add_count:
  "count_of (add_count k c m) k' = (if k' = k then count_of m k + c else count_of m k')"
  by (induction m) (auto simp: count_of_def)

lemma distinct_add_count:
  "distinct (map fst m) \<Longrightarrow> distinct (map fst (add_count k c m))"
proof (induction m)
  case Nil
  then show ?case by simp
next
  case (Cons e m)
  obtain k' v where e: "e = (k', v)" by (cases e)
  have "set (map fst (add_count k c m)) = insert k (set (map fst m))"
    using keys_add_count [of k c m] by (simp add: keys_of_def)
  with Cons e show ?case by auto
qed

lemma sum_add_count: "sum_list (map snd (add_count k c m)) = sum_list (map snd m) + c"
  by (induction m) auto

lemma map_of_keys_count:
  "map_of m k = (if k \<in> keys_of m then Some (count_of m k) else None)"
  by (auto simp: keys_of_def count_of_def map_of_eq_None_iff split: option.splits)

lemma keys_merge_counts: "keys_of (merge_counts t cs) = keys_of t \<union> keys_of cs"
  unfolding merge_counts_def
proof (induction cs arbitrary: t)
  case Nil
  then show ?case by (simp add: keys_of_def)
next
  case (Cons e cs)
  then show ?case
    by (cases e) (auto simp: keys_add_count, auto simp: keys_of_def)
qed

lemma count_of_merge_counts:
  "count_of (merge_counts t cs) k = count_of t k + entry_sum cs k"
  unfolding merge_counts_def
proof (induction cs arbitrary: t)
  case Nil
  then show ?case by (simp add: entry_sum_def)
next
  case (Cons e cs)
  then show ?case
    by (cases e) (simp add: count_of_add_count entry_sum_def)
qed

lemma distinct_merge_counts:
  "distinct (map fst t) \<Longrightarrow> distinct (map fst (merge_counts t cs))"
  unfolding merge_counts_def
  by (induction cs arbitrary: t) (auto simp: distinct_add_count)

lemma sum_merge_counts:
  "sum_list (map snd (merge_counts t cs)) = sum_list (map snd t) + sum_list (map snd cs)"
  unfolding merge_counts_def
  by (induction cs arbitrary: t) (auto simp: sum_add_count)

lemma entry_sum_distinct:
  "distinct (map fst cs) \<Longrightarrow> entry_sum cs k = count_of cs k"
proof (induction cs)
  case Nil
  then show ?case by (simp add: entry_sum_def count_of_def)
next
  case (Cons e cs)
  obtain k' v where e: "e = (k', v)" by (cases e)
  show ?case
  proof (cases "k' = k")
    case True
    with Cons.prems e have "filter (\<lambda>e. fst e = k) cs = []"
      by (auto simp: filter_empty_conv)
    with True e show ?thesis
      by (simp add: entry_sum_def count_of_def)
  next
    case False
    with Cons e show ?thesis
      by (simp add: entry_sum_def count_of_def)
  qed
qed

section \<open>The run on the small corpus\<close>

lemma example_run:
  "countLabels example_lib example_tree example_fs rev example_config ''data'' =
     Inr example_report"
  by code_simp

section \<open>Sorting with the comparison of the ranking\<close>

lemma sint_eq_iff: "sint (a :: int64) = sint b \<longleftrightarrow> a = b"
  by (auto intro: signed_word_eqI)

lemma label_less_rank_key: "label_less a b \<longleftrightarrow> rank_key a < rank_key b"
proof (cases "Count a = Count b")
  case True
  then show ?thesis
    by (simp add: label_less_def rank_key_def less_prod_def)
next
  case False
  then have "sint (Count a) \<noteq> sint (Count b)"
    by (simp add: sint_eq_iff)
  with False show ?thesis
    by (auto simp: label_less_def rank_key_def less_prod_def)
qed

lemma inj_rank_key: "inj rank_key"
proof (rule injI)
  fix a b :: LabelCount
  assume "rank_key a = rank_key b"
  then have "Count a = Count b" "Label a = Label b"
    by (simp_all add: rank_key_def sint_eq_iff)
  then show "a = b"
    by simp
qed

lemma insert_by_insort: "insert_by label_less x ys = insort_key rank_key x ys"
  by (induction ys) (auto simp: label_less_rank_key)

lemma sort_Slice_sort_key: "sort_Slice label_less xs = sort_key rank_key xs"
  unfolding sort_Slice_def sort_key_def
  by (induction xs) (simp_all add: insert_by_insort)

lemma sort_Slice_mset: "mset (sort_Slice label_less xs) = mset xs"
  by (simp add: sort_Slice_sort_key)

lemma sort_Slice_unique:
  assumes "mset xs = mset ys"
  shows "sort_Slice label_less xs = sort_Slice label_less ys"
proof -
  have "sort_key rank_key xs = sort_key rank_key ys"
  proof (rule sort_key_inj_key_eq)
    show "mset xs = mset (sort_key rank_key ys)"
      using assms by simp
    show "inj_on rank_key (set xs)"
      using inj_rank_key by (rule inj_on_subset) simp
    show "sorted (map rank_key (sort_key rank_key ys))"
      by simp
  qed
  then show ?thesis
    by (simp add: sort_Slice_sort_key)
qed

lemma sort_Slice_sorted:
  assumes "distinct xs"
  shows "sorted_wrt label_less (sort_Slice label_less xs)"
proof -
  have "distinct (sort_key rank_key xs)"
    using assms by simp
  then have "distinct (map rank_key (sort_key rank_key xs))"
    using inj_rank_key by (simp add: distinct_map inj_on_def)
  then have "sorted_wrt (<) (map rank_key (sort_key rank_key xs))"
    by (simp add: strict_sorted_iff)
  then have "sorted_wrt (\<lambda>a b. rank_key a < rank_key b) (sort_key rank_key xs)"
    by (simp add: sorted_wrt_map)
  moreover have "(\<lambda>a b. rank_key a < rank_key b) = label_less"
    by (simp add: fun_eq_iff label_less_rank_key)
  ultimately show ?thesis
    by (simp only: sort_Slice_sort_key)
qed

lemma label_less_spelled:
  "label_less =
     (\<lambda>a b. sint (Count b) < sint (Count a) \<or> (Count a = Count b \<and> Label a < Label b))"
  by (auto simp: label_less_def fun_eq_iff)

lemma rank_labels_entries: "rank_labels t = sort_Slice label_less (entries t)"
  by (simp add: rank_labels_def entries_def)

lemma distinct_entries: "distinct (map fst t) \<Longrightarrow> distinct (entries t)"
proof -
  assume "distinct (map fst t)"
  then have "distinct t"
    by (simp add: distinct_map)
  moreover have "inj_on (\<lambda>(label, count). \<lparr>Label = label, Count = count\<rparr>) (set t)"
    by (rule inj_onI) auto
  ultimately show ?thesis
    by (simp add: entries_def distinct_map)
qed

lemma rank_labels_same_map:
  assumes "distinct (map fst t)" and "distinct (map fst t')" and "map_of t' = map_of t"
  shows "rank_labels t' = rank_labels t"
proof -
  have "set t' = set t"
    using map_of_inject_set [OF assms(2) assms(1)] assms(3) by simp
  moreover have "distinct t'" "distinct t"
    using assms(1,2) by (simp_all add: distinct_map)
  ultimately have "mset t' = mset t"
    by (simp add: set_eq_iff_mset_eq_distinct)
  then have "mset (entries t') = mset (entries t)"
    by (simp add: entries_def)
  then have "sort_Slice label_less (entries t') = sort_Slice label_less (entries t)"
    by (rule sort_Slice_unique)
  then show ?thesis
    by (simp only: rank_labels_entries)
qed

lemma sorted_permutation_is_ranking:
  assumes "mset ys = mset (entries t)" and "sorted_wrt label_less ys"
  shows "ys = rank_labels t"
proof -
  have "sorted_wrt (\<lambda>a b. rank_key a \<le> rank_key b) ys"
    using assms(2) by (rule sorted_wrt_mono_rel [rotated]) (simp add: label_less_rank_key)
  then have "sorted (map rank_key ys)"
    by (simp add: sorted_map)
  moreover have "inj_on rank_key (set (entries t))"
    using inj_rank_key by (rule inj_on_subset) simp
  ultimately have "sort_key rank_key (entries t) = ys"
    using assms(1) by (intro sort_key_inj_key_eq) simp_all
  then show ?thesis
    by (simp only: rank_labels_entries sort_Slice_sort_key)
qed

section \<open>Aggregation\<close>

text \<open>
  What the loop over the results computes, whatever the results are: only the results
  without an error reach the table and the line total, and every error is appended.
\<close>

lemma collect_results_general:
  assumes "collect_results rs (t, n, es) = (t', n', es')"
  shows "keys_of t' = keys_of t \<union> (\<Union>r \<in> set (filter (\<lambda>r. Error r = None) rs). keys_of (Counts r)) \<and>
         (\<forall>k. count_of t' k =
            count_of t k +
            sum_list (map (\<lambda>r. entry_sum (Counts r) k) (filter (\<lambda>r. Error r = None) rs))) \<and>
         n' = n + sum_list (map Lines (filter (\<lambda>r. Error r = None) rs)) \<and>
         es' = es @ List.map_filter Error rs \<and>
         (distinct (map fst t) \<longrightarrow> distinct (map fst t'))"
  using assms
proof (induction rs arbitrary: t n es)
  case Nil
  then show ?case by simp
next
  case (Cons r rs)
  show ?case
  proof (cases "Error r")
    case None
    with Cons.prems have
      "collect_results rs (merge_counts t (Counts r), n + Lines r, es) = (t', n', es')"
      by simp
    from Cons.IH [OF this] None show ?thesis
      by (auto simp: keys_merge_counts count_of_merge_counts distinct_merge_counts add.assoc)
  next
    case (Some e)
    with Cons.prems have "collect_results rs (t, n, es @ [e]) = (t', n', es')"
      by simp
    from Cons.IH [OF this] Some show ?thesis
      by simp
  qed
qed

lemma sum_list_map_mset:
  fixes f :: "'a \<Rightarrow> int64"
  assumes "mset xs = mset ys"
  shows "sum_list (map f xs) = sum_list (map f ys)"
proof -
  have "sum_mset (mset (map f xs)) = sum_mset (mset (map f ys))"
    using assms by simp
  then show ?thesis
    by (simp only: sum_mset_sum_list)
qed

lemma collect_results_perm:
  assumes perm: "mset rs' = mset rs"
    and c': "collect_results rs' ([], 0, []) = (t', n', es')"
    and c: "collect_results rs ([], 0, []) = (t, n, es)"
  shows "map_of t' = map_of t" and "n' = n" and "distinct (map fst t')" and "distinct (map fst t)"
proof -
  let ?ok = "filter (\<lambda>r. Error r = None)"
  have ok: "mset (?ok rs') = mset (?ok rs)"
    using perm by simp
  then have ok_set: "set (?ok rs') = set (?ok rs)"
    by (rule mset_eq_setD)
  note g' = collect_results_general [OF c']
  note g = collect_results_general [OF c]
  have keys: "keys_of t' = keys_of t"
    using g' g by (simp only: ok_set)
  have counts: "count_of t' k = count_of t k" for k
    using g' g sum_list_map_mset [OF ok, of "\<lambda>r. entry_sum (Counts r) k"] by simp
  show "map_of t' = map_of t"
    by (rule ext) (simp add: map_of_keys_count keys counts)
  show "n' = n"
    using g' g sum_list_map_mset [OF ok, of Lines] by simp
  show "distinct (map fst t')"
    using g' by simp
  show "distinct (map fst t)"
    using g by simp
qed

lemma merge_counts_commute:
  "map_of (merge_counts (merge_counts t a) b) = map_of (merge_counts (merge_counts t b) a)"
  by (rule ext)
    (simp add: map_of_keys_count keys_merge_counts count_of_merge_counts Un_ac add_ac)

lemma merge_counts_assoc:
  assumes "distinct (map fst a)"
  shows "map_of (merge_counts (merge_counts t a) b) = map_of (merge_counts t (merge_counts a b))"
proof -
  have "entry_sum (merge_counts a b) k = entry_sum a k + entry_sum b k" for k
    using assms
    by (simp add: entry_sum_distinct distinct_merge_counts count_of_merge_counts)
  then show ?thesis
    by (intro ext)
      (simp add: map_of_keys_count keys_merge_counts count_of_merge_counts Un_ac add_ac)
qed

lemma countLabels_perm:
  assumes p: "\<forall>js. mset (arrival js) = mset js" and p': "\<forall>js. mset (arrival' js) = mset js"
    and run: "countLabels lib tree fs arrival config directory = Inr r"
    and run': "countLabels lib tree fs arrival' config directory = Inr r'"
  shows "map_of (LabelCounts r') = map_of (LabelCounts r) \<and> TotalLines r' = TotalLines r \<and>
         SortedLabels r' = SortedLabels r"
proof -
  obtain files where walk: "collectJSONLFiles tree directory = (files, None)"
    using run by (auto simp: countLabels_def split: prod.splits option.splits)
  define jobs where
    "jobs = map (\<lambda>path. \<lparr>FilePath = path, Job_LabelKey = LabelKey config\<rparr>) files"
  define rs where "rs = (if Workers config \<le> 0 then []
       else map (worker lib fs (UseFastParse config)) (arrival jobs))"
  define rs' where "rs' = (if Workers config \<le> 0 then []
       else map (worker lib fs (UseFastParse config)) (arrival' jobs))"
  have perm: "mset rs' = mset rs"
    using p p' by (simp add: rs_def rs'_def)
  obtain t n es where c: "collect_results rs ([], 0, []) = (t, n, es)"
    by (cases "collect_results rs ([], 0, [])") auto
  obtain t' n' es' where c': "collect_results rs' ([], 0, []) = (t', n', es')"
    by (cases "collect_results rs' ([], 0, [])") auto
  have r: "LabelCounts r = t" "TotalLines r = n" "SortedLabels r = rank_labels t"
    using run walk c
    by (auto simp: countLabels_def rs_def jobs_def Let_def split: if_splits)
  have r': "LabelCounts r' = t'" "TotalLines r' = n'" "SortedLabels r' = rank_labels t'"
    using run' walk c'
    by (auto simp: countLabels_def rs'_def jobs_def Let_def split: if_splits)
  note same = collect_results_perm [OF perm c' c]
  have "rank_labels t' = rank_labels t"
    using same(4) same(3) same(1) by (rule rank_labels_same_map)
  with same(1) same(2) show ?thesis
    by (simp add: r r')
qed

text \<open>
  Claim C3. Aggregation does not depend on the order of the results. Merging the counts
  of two results into a table gives the same map in either order, and merging them one
  after the other gives the same map as merging their merge. For any two arrival orders
  of the same results, the loop over the results ends with the same frequency table (as
  a map), the same line total and the same ranked list; and two runs that differ only in
  the order in which the jobs complete return the same table, total and ranked list.
\<close>

theorem C3_aggregation_is_order_independent:
  assumes "mset rs' = mset rs"
  shows
    "map_of (fst (collect_results rs' ([], 0, []))) =
       map_of (fst (collect_results rs ([], 0, []))) \<and>
     fst (snd (collect_results rs' ([], 0, []))) = fst (snd (collect_results rs ([], 0, []))) \<and>
     rank_labels (fst (collect_results rs' ([], 0, []))) =
       rank_labels (fst (collect_results rs ([], 0, []))) \<and>
     map_of (merge_counts (merge_counts t a) b) = map_of (merge_counts (merge_counts t b) a) \<and>
     (distinct (map fst a) \<longrightarrow>
        map_of (merge_counts (merge_counts t a) b) = map_of (merge_counts t (merge_counts a b))) \<and>
     ((\<forall>js. mset (arrival js) = mset js) \<and> (\<forall>js. mset (arrival' js) = mset js) \<and>
      countLabels lib tree fs arrival config directory = Inr r \<and>
      countLabels lib tree fs arrival' config directory = Inr r' \<longrightarrow>
        map_of (LabelCounts r') = map_of (LabelCounts r) \<and> TotalLines r' = TotalLines r \<and>
        SortedLabels r' = SortedLabels r)"
proof -
  obtain t1 n1 es1 where c: "collect_results rs ([], 0, []) = (t1, n1, es1)"
    by (cases "collect_results rs ([], 0, [])") auto
  obtain t2 n2 es2 where c': "collect_results rs' ([], 0, []) = (t2, n2, es2)"
    by (cases "collect_results rs' ([], 0, [])") auto
  note same = collect_results_perm [OF assms c' c]
  have "rank_labels t2 = rank_labels t1"
    using same(4) same(3) same(1) by (rule rank_labels_same_map)
  with same(1) same(2) have loop:
    "map_of (fst (collect_results rs' ([], 0, []))) =
       map_of (fst (collect_results rs ([], 0, []))) \<and>
     fst (snd (collect_results rs' ([], 0, []))) = fst (snd (collect_results rs ([], 0, []))) \<and>
     rank_labels (fst (collect_results rs' ([], 0, []))) =
       rank_labels (fst (collect_results rs ([], 0, [])))"
    by (simp add: c c')
  have runs: "(\<forall>js. mset (arrival js) = mset js) \<and> (\<forall>js. mset (arrival' js) = mset js) \<and>
      countLabels lib tree fs arrival config directory = Inr r \<and>
      countLabels lib tree fs arrival' config directory = Inr r' \<longrightarrow>
        map_of (LabelCounts r') = map_of (LabelCounts r) \<and> TotalLines r' = TotalLines r \<and>
        SortedLabels r' = SortedLabels r"
    using countLabels_perm [of arrival arrival' lib tree fs config directory r r'] by blast
  have assoc: "distinct (map fst a) \<longrightarrow>
        map_of (merge_counts (merge_counts t a) b) = map_of (merge_counts t (merge_counts a b))"
    by (simp add: merge_counts_assoc)
  show ?thesis
    using loop merge_counts_commute [of t a b] assoc runs by blast
qed

theorem C3_aggregation_witness:
  "mset (rev example_results) = mset example_results \<and>
   collect_results example_results ([], 0, []) =
     ([(''a'', 1), (''b'', 3)], 4, [OpenFailed ''no such file'']) \<and>
   collect_results (rev example_results) ([], 0, []) =
     ([(''b'', 3), (''a'', 1)], 4, [OpenFailed ''no such file'']) \<and>
   map_of [(''b'', 3 :: int64), (''a'', 1)] = map_of [(''a'', 1), (''b'', 3)] \<and>
   rank_labels [(''b'', 3), (''a'', 1)] = rank_labels [(''a'', 1), (''b'', 3)] \<and>
   countLabels example_lib example_tree example_fs rev example_config ''data'' =
     Inr example_report \<and>
   countLabels example_lib example_tree example_fs (\<lambda>js. js) example_config ''data'' =
     Inr example_report"
proof -
  have perm: "mset (rev example_results) = mset example_results"
    by simp
  have one: "collect_results example_results ([], 0, []) =
     ([(''a'', 1), (''b'', 3)], 4, [OpenFailed ''no such file''])"
    by (simp add: example_results_def merge_counts_def)
  have other: "collect_results (rev example_results) ([], 0, []) =
     ([(''b'', 3), (''a'', 1)], 4, [OpenFailed ''no such file''])"
    by (simp add: example_results_def merge_counts_def)
  have straight:
    "countLabels example_lib example_tree example_fs (\<lambda>js. js) example_config ''data'' =
       Inr example_report"
    by code_simp
  note inst = C3_aggregation_is_order_independent
      [OF perm, where arrival = rev and arrival' = "\<lambda>js. js" and lib = example_lib and
        tree = example_tree and fs = example_fs and config = example_config and
        directory = "''data''" and r = example_report and r' = example_report]
  have "map_of [(''b'', 3 :: int64), (''a'', 1)] = map_of [(''a'', 1), (''b'', 3)]"
    using inst [THEN conjunct1] by (simp only: one other fst_conv)
  moreover have "rank_labels [(''b'', 3), (''a'', 1)] = rank_labels [(''a'', 1), (''b'', 3)]"
    using inst [THEN conjunct2, THEN conjunct2, THEN conjunct1]
    by (simp only: one other fst_conv)
  ultimately show ?thesis
    using perm one other example_run straight by (simp only: simp_thms)
qed

section \<open>The ranking\<close>

lemma report_ranking:
  assumes "countLabels lib tree fs arrival config directory = Inr r"
  shows "SortedLabels r = rank_labels (LabelCounts r)" and "distinct (map fst (LabelCounts r))"
proof -
  obtain files where walk: "collectJSONLFiles tree directory = (files, None)"
    using assms by (auto simp: countLabels_def split: prod.splits option.splits)
  define rs where "rs = (if Workers config \<le> 0 then []
       else map (worker lib fs (UseFastParse config))
         (arrival (map (\<lambda>path. \<lparr>FilePath = path, Job_LabelKey = LabelKey config\<rparr>) files)))"
  obtain t n es where c: "collect_results rs ([], 0, []) = (t, n, es)"
    by (cases "collect_results rs ([], 0, [])") auto
  have r: "LabelCounts r = t" "SortedLabels r = rank_labels t"
    using assms walk c
    by (auto simp: countLabels_def rs_def Let_def split: if_splits)
  show "SortedLabels r = rank_labels (LabelCounts r)"
    by (simp add: r)
  show "distinct (map fst (LabelCounts r))"
    using collect_results_general [OF c] by (simp add: r)
qed

text \<open>
  Claim C4. For every frequency table (a map: one entry for each label) the ranked list
  holds exactly the entries of the table, each entry stands before another one when its
  count is larger, or the counts are equal and its label is smaller in the
  lexicographic order of the bytes; the list depends on the table as a map only, not on
  the order in which the map is iterated; and the table with b at 3 and a at 3 is ranked
  a first, then b. The order of the labels is the lexicographic order of their bytes read
  as unsigned numbers. The ranked list is the only arrangement of the entries that is
  sorted in this way, so it does not depend on the sorting algorithm either. In every
  report of a run, the ranked list is this ranking of the report's own table.
\<close>

theorem C4_ranking_sorted_by_count_then_label:
  assumes "distinct (map fst t)"
  shows
    "mset (rank_labels t) = mset (entries t) \<and>
     sorted_wrt
       (\<lambda>a b. sint (Count b) < sint (Count a) \<or> (Count a = Count b \<and> Label a < Label b))
       (rank_labels t) \<and>
     (distinct (map fst t') \<and> map_of t' = map_of t \<longrightarrow> rank_labels t' = rank_labels t) \<and>
     rank_labels [(''b'', 3), (''a'', 3)] =
       [\<lparr>Label = ''a'', Count = 3\<rparr>, \<lparr>Label = ''b'', Count = 3\<rparr>] \<and>
     (Label x < Label y \<longleftrightarrow>
        (Label x, Label y) \<in> lexord {(u, v). (of_char u :: nat) < of_char v}) \<and>
     (mset ys = mset (entries t) \<and>
      sorted_wrt
        (\<lambda>a b. sint (Count b) < sint (Count a) \<or> (Count a = Count b \<and> Label a < Label b)) ys \<longrightarrow>
        ys = rank_labels t) \<and>
     (countLabels lib tree fs arrival config directory = Inr r \<longrightarrow>
        SortedLabels r = rank_labels (LabelCounts r) \<and> distinct (map fst (LabelCounts r)))"
proof -
  have "countLabels lib tree fs arrival config directory = Inr r \<longrightarrow>
        SortedLabels r = rank_labels (LabelCounts r) \<and> distinct (map fst (LabelCounts r))"
    by (rule impI) (simp add: report_ranking)
  moreover
  have "mset ys = mset (entries t) \<and> sorted_wrt label_less ys \<longrightarrow> ys = rank_labels t"
    by (auto intro: sorted_permutation_is_ranking)
  moreover have "Label x < Label y \<longleftrightarrow>
      (Label x, Label y) \<in> lexord {(u, v). (of_char u :: nat) < of_char v}"
    by (simp add: list_less_def less_char_def)
  moreover have "mset (rank_labels t) = mset (entries t)"
    by (simp only: rank_labels_entries sort_Slice_mset)
  moreover have "sorted_wrt label_less (rank_labels t)"
    using assms by (simp only: rank_labels_entries sort_Slice_sorted distinct_entries)
  moreover have
    "distinct (map fst t') \<and> map_of t' = map_of t \<longrightarrow> rank_labels t' = rank_labels t"
    using assms by (auto intro: rank_labels_same_map)
  moreover have "rank_labels [(''b'', 3), (''a'', 3)] =
       [\<lparr>Label = ''a'', Count = 3\<rparr>, \<lparr>Label = ''b'', Count = 3\<rparr>]"
    by (simp add: rank_labels_def sort_Slice_def label_less_def)
  ultimately show ?thesis
    by (simp only: label_less_spelled simp_thms)
qed

theorem C4_ranking_witness:
  "distinct (map fst [(''b'', 3 :: int64), (''Zed'', 3), (''a'', 3), (''ab'', 7)]) \<and>
   rank_labels [(''b'', 3), (''Zed'', 3), (''a'', 3), (''ab'', 7)] =
     [\<lparr>Label = ''ab'', Count = 7\<rparr>, \<lparr>Label = ''Zed'', Count = 3\<rparr>,
      \<lparr>Label = ''a'', Count = 3\<rparr>, \<lparr>Label = ''b'', Count = 3\<rparr>] \<and>
   rank_labels [(''ab'', 7), (''a'', 3), (''b'', 3), (''Zed'', 3)] =
     rank_labels [(''b'', 3), (''Zed'', 3), (''a'', 3), (''ab'', 7)] \<and>
   rank_labels [(''b'', 3), (''a'', 3)] =
     [\<lparr>Label = ''a'', Count = 3\<rparr>, \<lparr>Label = ''b'', Count = 3\<rparr>]"
proof -
  have d: "distinct (map fst [(''b'', 3 :: int64), (''Zed'', 3), (''a'', 3), (''ab'', 7)])"
    by simp
  have d': "distinct (map fst [(''ab'', 7 :: int64), (''a'', 3), (''b'', 3), (''Zed'', 3)])"
    by simp
  have same: "map_of [(''ab'', 7 :: int64), (''a'', 3), (''b'', 3), (''Zed'', 3)] =
      map_of [(''b'', 3), (''Zed'', 3), (''a'', 3), (''ab'', 7)]"
    by (rule ext) simp
  have ranked: "rank_labels [(''b'', 3), (''Zed'', 3), (''a'', 3), (''ab'', 7)] =
     [\<lparr>Label = ''ab'', Count = 7\<rparr>, \<lparr>Label = ''Zed'', Count = 3\<rparr>,
      \<lparr>Label = ''a'', Count = 3\<rparr>, \<lparr>Label = ''b'', Count = 3\<rparr>]"
    by (simp add: rank_labels_def sort_Slice_def label_less_def)
  note inst = C4_ranking_sorted_by_count_then_label
      [OF d, where t' = "[(''ab'', 7), (''a'', 3), (''b'', 3), (''Zed'', 3)]"]
  have "rank_labels [(''ab'', 7), (''a'', 3), (''b'', 3), (''Zed'', 3)] =
     rank_labels [(''b'', 3), (''Zed'', 3), (''a'', 3), (''ab'', 7)]"
    using inst [THEN conjunct2, THEN conjunct2, THEN conjunct1] d' same by blast
  moreover have "rank_labels [(''b'', 3), (''a'', 3)] =
     [\<lparr>Label = ''a'', Count = 3\<rparr>, \<lparr>Label = ''b'', Count = 3\<rparr>]"
    using inst [THEN conjunct2, THEN conjunct2, THEN conjunct2, THEN conjunct1] .
  ultimately show ?thesis
    using d ranked by (simp only: simp_thms)
qed

section \<open>What is counted\<close>

lemma counted_values_Cons:
  "counted_values lib key fast (line # rest) =
     (if line = [] then counted_values lib key fast rest
      else case extract_label lib key fast line of
        None \<Rightarrow> counted_values lib key fast rest
      | Some v \<Rightarrow> if v \<noteq> [] then v # counted_values lib key fast rest
                  else counted_values lib key fast rest)"
  by (simp add: counted_values_def split: option.splits)

lemma scan_lines_tally:
  "scan_lines lib key fast lines (c, n) =
     (tally (counted_values lib key fast lines) c,
      n + of_nat (length (counted_values lib key fast lines)))"
proof (induction lines arbitrary: c n)
  case Nil
  then show ?case by (simp add: counted_values_def tally_def)
next
  case (Cons line rest)
  show ?case
    by (simp add: Cons.IH counted_values_Cons tally_def split: option.splits)
qed

lemma keys_tally: "keys_of (tally vs c) = keys_of c \<union> set vs"
  unfolding tally_def by (induction vs arbitrary: c) (auto simp: keys_add_count)

lemma count_of_tally: "count_of (tally vs c) k = count_of c k + of_nat (count_list vs k)"
  unfolding tally_def by (induction vs arbitrary: c) (auto simp: count_of_add_count)

lemma distinct_tally: "distinct (map fst c) \<Longrightarrow> distinct (map fst (tally vs c))"
  unfolding tally_def by (induction vs arbitrary: c) (auto simp: distinct_add_count)

lemma keys_of_Nil: "keys_of [] = {}"
  by (simp add: keys_of_def)

lemma count_of_Nil: "count_of [] k = 0"
  by (simp add: count_of_def)

lemma keys_tally_Nil: "keys_of (tally vs []) = set vs"
  by (simp add: keys_tally keys_of_Nil)

lemma count_of_tally_Nil: "count_of (tally vs []) k = of_nat (count_list vs k)"
  by (simp add: count_of_tally count_of_Nil)

lemma worker_good:
  "fs (FilePath job) = Opened lines None \<Longrightarrow>
     worker lib fs fast job =
       \<lparr>Counts = tally (counted_values lib (Job_LabelKey job) fast lines) [],
        Lines = of_nat (length (counted_values lib (Job_LabelKey job) fast lines)),
        Error = None\<rparr>"
  by (simp add: worker_def processFile_def scan_lines_tally)

lemma worker_bad:
  "\<not> (\<exists>lines. fs (FilePath job) = Opened lines None) \<Longrightarrow>
     Error (worker lib fs fast job) \<noteq> None"
  by (auto simp: worker_def processFile_def split: file_content.splits prod.splits option.splits)

lemma run_values_Cons_good:
  "fs (FilePath job) = Opened lines None \<Longrightarrow>
     run_values lib fs fast (job # jobs) =
       counted_values lib (Job_LabelKey job) fast lines @ run_values lib fs fast jobs"
  by (simp add: run_values_def)

lemma run_values_Cons_bad:
  "\<not> (\<exists>lines. fs (FilePath job) = Opened lines None) \<Longrightarrow>
     run_values lib fs fast (job # jobs) = run_values lib fs fast jobs"
  by (auto simp: run_values_def split: file_content.splits option.splits)

lemma collect_results_values:
  assumes "collect_results (map (worker lib fs fast) jobs) (t, n, es) = (t', n', es')"
    and "distinct (map fst t)"
  shows "keys_of t' = keys_of t \<union> set (run_values lib fs fast jobs) \<and>
         (\<forall>v. count_of t' v = count_of t v + of_nat (count_list (run_values lib fs fast jobs) v)) \<and>
         n' = n + of_nat (length (run_values lib fs fast jobs)) \<and>
         distinct (map fst t')"
  using assms
proof (induction jobs arbitrary: t n es)
  case Nil
  then show ?case by (simp add: run_values_def)
next
  case (Cons job jobs)
  show ?case
  proof (cases "\<exists>lines. fs (FilePath job) = Opened lines None")
    case True
    then obtain lines where good: "fs (FilePath job) = Opened lines None" by blast
    define vs where "vs = counted_values lib (Job_LabelKey job) fast lines"
    define t1 where "t1 = merge_counts t (tally vs [])"
    have step: "collect_results (map (worker lib fs fast) jobs)
        (t1, n + of_nat (length vs), es) = (t', n', es')"
      using Cons.prems(1)
      by (simp add: worker_good [where fs = fs and job = job, OF good] vs_def t1_def)
    have d1: "distinct (map fst t1)"
      using Cons.prems(2) by (simp add: t1_def distinct_merge_counts)
    have k1: "keys_of t1 = keys_of t \<union> set vs"
      by (simp add: t1_def keys_merge_counts keys_tally_Nil)
    have c1: "count_of t1 v = count_of t v + of_nat (count_list vs v)" for v
      by (simp add: t1_def count_of_merge_counts entry_sum_distinct distinct_tally
          count_of_tally_Nil)
    have rv: "run_values lib fs fast (job # jobs) = vs @ run_values lib fs fast jobs"
      by (simp add: run_values_Cons_good [where fs = fs and job = job, OF good] vs_def)
    from Cons.IH [OF step d1] show ?thesis
      by (auto simp: rv k1 c1 add.assoc)
  next
    case False
    then obtain e where err: "Error (worker lib fs fast job) = Some e"
      using worker_bad [where fs = fs and job = job and lib = lib and fast = fast] by auto
    have step: "collect_results (map (worker lib fs fast) jobs) (t, n, es @ [e]) = (t', n', es')"
      using Cons.prems(1) err by simp
    from Cons.IH [OF step Cons.prems(2)] show ?thesis
      by (simp add: run_values_Cons_bad [where fs = fs and job = job, OF False])
  qed
qed

lemma processFile_counted:
  assumes "fs p = Opened lines err"
  shows "fst (processFile lib fs p key fast) = tally (counted_values lib key fast lines) []"
    and "fst (snd (processFile lib fs p key fast)) =
           of_nat (length (counted_values lib key fast lines))"
  using assms by (simp_all add: processFile_def scan_lines_tally split: option.splits)

lemma countLabels_counted:
  assumes run: "countLabels lib tree fs arrival config directory = Inr r"
  shows "keys_of (LabelCounts r) = set (counted_in_run lib tree fs arrival config directory)"
    and "count_of (LabelCounts r) v =
           of_nat (count_list (counted_in_run lib tree fs arrival config directory) v)"
    and "TotalLines r = of_nat (length (counted_in_run lib tree fs arrival config directory))"
    and "distinct (map fst (LabelCounts r))"
    and "UniqueLabels r = int (length (LabelCounts r))"
proof -
  obtain files where walk: "collectJSONLFiles tree directory = (files, None)"
    using run by (auto simp: countLabels_def split: prod.splits option.splits)
  define jobs where
    "jobs = map (\<lambda>path. \<lparr>FilePath = path, Job_LabelKey = LabelKey config\<rparr>) files"
  define js where "js = (if Workers config \<le> 0 then [] else arrival jobs)"
  obtain t n es where
    coll: "collect_results (map (worker lib fs (UseFastParse config)) js) ([], 0, []) = (t, n, es)"
    by (cases "collect_results (map (worker lib fs (UseFastParse config)) js) ([], 0, [])") auto
  have r: "LabelCounts r = t" "TotalLines r = n" "UniqueLabels r = int (length t)"
    using run walk coll
    by (auto simp: countLabels_def js_def jobs_def Let_def split: if_splits)
  have vs: "counted_in_run lib tree fs arrival config directory =
      run_values lib fs (UseFastParse config) js"
    by (simp add: counted_in_run_def js_def jobs_def walk run_values_def)
  have facts: "keys_of t = keys_of [] \<union> set (run_values lib fs (UseFastParse config) js) \<and>
     (\<forall>v. count_of t v =
        count_of [] v + of_nat (count_list (run_values lib fs (UseFastParse config) js) v)) \<and>
     n = 0 + of_nat (length (run_values lib fs (UseFastParse config) js)) \<and>
     distinct (map fst t)"
    by (rule collect_results_values [OF coll]) simp
  show "keys_of (LabelCounts r) = set (counted_in_run lib tree fs arrival config directory)"
    using facts by (simp add: r vs keys_of_Nil)
  show "count_of (LabelCounts r) v =
      of_nat (count_list (counted_in_run lib tree fs arrival config directory) v)"
    using facts by (simp add: r vs count_of_Nil)
  show "TotalLines r = of_nat (length (counted_in_run lib tree fs arrival config directory))"
    using facts by (simp add: r vs)
  show "distinct (map fst (LabelCounts r))"
    using facts by (simp add: r)
  show "UniqueLabels r = int (length (LabelCounts r))"
    by (simp add: r)
qed

text \<open>
  Within a file the line counter goes up exactly on the lines for which the extractor
  yields a non-empty value: for a file that opens, \<^verbatim>\<open>processFile\<close> returns as line count
  the number of these values, and as counts the number of occurrences of each of them and
  no other key. For a run, \<open>TotalLines\<close> is the number of values counted over the files
  read to their end, the table holds exactly these values with their numbers of
  occurrences, and \<open>UniqueLabels\<close> is the number of distinct ones.
\<close>

lemma line_counter_counts_nonempty_values:
  assumes "countLabels lib tree fs arrival config directory = Inr r"
    and "fs p = Opened lines err"
  shows
    "fst (snd (processFile lib fs p key fast)) =
       of_nat (length (counted_values lib key fast lines)) \<and>
     keys_of (fst (processFile lib fs p key fast)) = set (counted_values lib key fast lines) \<and>
     (\<forall>v. count_of (fst (processFile lib fs p key fast)) v =
        of_nat (count_list (counted_values lib key fast lines) v)) \<and>
     counted_values lib key fast (line # rest) =
       (if line \<noteq> [] \<and> extract_label lib key fast line \<noteq> None \<and>
           extract_label lib key fast line \<noteq> Some []
        then the (extract_label lib key fast line) # counted_values lib key fast rest
        else counted_values lib key fast rest) \<and>
     TotalLines r = of_nat (length (counted_in_run lib tree fs arrival config directory)) \<and>
     UniqueLabels r = int (card (set (counted_in_run lib tree fs arrival config directory))) \<and>
     keys_of (LabelCounts r) = set (counted_in_run lib tree fs arrival config directory) \<and>
     (\<forall>v. count_of (LabelCounts r) v =
        of_nat (count_list (counted_in_run lib tree fs arrival config directory) v))"
proof -
  note run = countLabels_counted [OF assms(1)]
  have "card (set (counted_in_run lib tree fs arrival config directory)) =
      length (LabelCounts r)"
    using run(1) run(4) distinct_card [of "map fst (LabelCounts r)"]
    by (simp add: keys_of_def)
  then have unique:
    "UniqueLabels r = int (card (set (counted_in_run lib tree fs arrival config directory)))"
    by (simp add: run(5))
  have file1: "fst (snd (processFile lib fs p key fast)) =
      of_nat (length (counted_values lib key fast lines))"
    by (rule processFile_counted(2) [where fs = fs and p = p, OF assms(2)])
  have file2: "fst (processFile lib fs p key fast) = tally (counted_values lib key fast lines) []"
    by (rule processFile_counted(1) [where fs = fs and p = p, OF assms(2)])
  have step: "counted_values lib key fast (line # rest) =
       (if line \<noteq> [] \<and> extract_label lib key fast line \<noteq> None \<and>
           extract_label lib key fast line \<noteq> Some []
        then the (extract_label lib key fast line) # counted_values lib key fast rest
        else counted_values lib key fast rest)"
    by (auto simp: counted_values_Cons split: option.splits)
  show ?thesis
    using file1 step unique run(1) run(2) run(3)
    by (simp only: file2 keys_tally_Nil count_of_tally_Nil simp_thms)
qed

text \<open>
  Claim C5 asks, among the lines that contribute nothing, for the lines where the key is
  missing. Under the fast scan the code does not do this for a configured key other than
  \<^verbatim>\<open>label\<close>: with the key \<^verbatim>\<open>name\<close>, the line below has no field \<^verbatim>\<open>name\<close>, yet the fast
  extractor returns the value of \<^verbatim>\<open>label\<close>, the line is counted and the run reports one
  line and one value. The full parse of the same file counts nothing. This is the fixed
  key of the fast extractor, the defect of claim C2.
\<close>

theorem C5_line_without_configured_key_is_counted:
  \<open>Index ''{"label":"y"}'' (CHR 0x22 # ''name'' @ [CHR 0x22, CHR '':'']) = None \<and>
   extract_label example_lib ''name'' True ''{"label":"y"}'' = Some ''y'' \<and>
   processFile example_lib (\<lambda>path. Opened [''{"label":"y"}''] None) ''data/a.jsonl''
     ''name'' True = ([(''y'', 1)], 1, None) \<and>
   processFile example_lib (\<lambda>path. Opened [''{"label":"y"}''] None) ''data/a.jsonl''
     ''name'' False = ([], 0, None) \<and>
   countLabels example_lib (Dir ''data'' [File ''a.jsonl''])
     (\<lambda>path. Opened [''{"label":"y"}''] None) rev
     (example_config\<lparr>LabelKey := ''name''\<rparr>) ''data'' =
   Inr \<lparr>Directory = ''data'', FilesProcessed = 1, TotalLines = 1, UniqueLabels = 1,
        LabelCounts = [(''y'', 1)], SortedLabels = [\<lparr>Label = ''y'', Count = 1\<rparr>],
        Errors = []\<rparr>\<close>
proof -
  have \<open>Index ''{"label":"y"}'' (CHR 0x22 # ''name'' @ [CHR 0x22, CHR '':'']) = None\<close>
    by code_simp
  moreover have \<open>extract_label example_lib ''name'' True ''{"label":"y"}'' = Some ''y''\<close>
    by code_simp
  moreover have
    \<open>processFile example_lib (\<lambda>path. Opened [''{"label":"y"}''] None) ''data/a.jsonl''
       ''name'' True = ([(''y'', 1)], 1, None)\<close>
    by code_simp
  moreover have
    \<open>processFile example_lib (\<lambda>path. Opened [''{"label":"y"}''] None) ''data/a.jsonl''
       ''name'' False = ([], 0, None)\<close>
    by code_simp
  moreover have
    \<open>countLabels example_lib (Dir ''data'' [File ''a.jsonl''])
       (\<lambda>path. Opened [''{"label":"y"}''] None) rev
       (example_config\<lparr>LabelKey := ''name''\<rparr>) ''data'' =
     Inr \<lparr>Directory = ''data'', FilesProcessed = 1, TotalLines = 1, UniqueLabels = 1,
          LabelCounts = [(''y'', 1)], SortedLabels = [\<lparr>Label = ''y'', Count = 1\<rparr>],
          Errors = []\<rparr>\<close>
    by code_simp
  ultimately show ?thesis
    by (simp only: simp_thms)
qed

section \<open>Lines that are not JSON\<close>

lemma scan_lines_skip_unparseable:
  "Unmarshal lib bad = None \<Longrightarrow>
     scan_lines lib key False (before @ bad # after) acc =
     scan_lines lib key False (before @ after) acc"
proof (induction before arbitrary: acc)
  case Nil
  then show ?case
    by (cases acc) (simp add: extract_label_def)
next
  case (Cons line before)
  then show ?case
    by (cases acc) (simp split: option.splits)
qed

lemma processFile_skip_unparseable:
  assumes "Unmarshal lib bad = None"
  shows "processFile lib (fs(p := Opened (before @ bad # after) err)) q key False =
         processFile lib (fs(p := Opened (before @ after) err)) q key False"
  by (simp add: processFile_def scan_lines_skip_unparseable [OF assms])

text \<open>
  Claim C6. Under the full-parse strategy a line that \<^verbatim>\<open>json.Unmarshal\<close> rejects is
  skipped: it yields no value, and a file gives the same counts, the same line total
  and the same error, or absence of error, as the file without that line. The report of
  the run, with its error list, is therefore the same as if the line were not there.
\<close>

theorem C6_unparseable_line_is_skipped:
  assumes "Unmarshal lib bad = None"
    and "UseFastParse config = False"
  shows
    "extract_label lib key False bad = None \<and>
     processFile lib (fs(p := Opened (before @ bad # after) err)) q key False =
       processFile lib (fs(p := Opened (before @ after) err)) q key False \<and>
     countLabels lib tree (fs(p := Opened (before @ bad # after) err)) arrival config directory =
       countLabels lib tree (fs(p := Opened (before @ after) err)) arrival config directory"
proof -
  have same: "worker lib (fs(p := Opened (before @ bad # after) err)) False =
      worker lib (fs(p := Opened (before @ after) err)) False"
    by (rule ext) (simp only: worker_def processFile_skip_unparseable [OF assms(1)])
  have "countLabels lib tree (fs(p := Opened (before @ bad # after) err)) arrival config
      directory =
    countLabels lib tree (fs(p := Opened (before @ after) err)) arrival config directory"
    unfolding countLabels_def assms(2) same by (rule refl)
  moreover have "extract_label lib key False bad = None"
    by (simp add: extract_label_def assms(1))
  ultimately show ?thesis
    by (simp only: processFile_skip_unparseable [OF assms(1)] simp_thms)
qed

theorem C6_unparseable_line_witness:
  \<open>Unmarshal example_lib ''{"label": "x"'' = None \<and>
   UseFastParse (example_config\<lparr>UseFastParse := False\<rparr>) = False \<and>
   extract_label example_lib ''label'' False ''{"label": "x"'' = None \<and>
   countLabels example_lib example_tree
     (example_fs(''data/a.jsonl'' :=
        Opened ([''{"label":"cat"}''] @ ''{"label": "x"'' # [''{"label":"dog"}'']) None))
     rev (example_config\<lparr>UseFastParse := False\<rparr>) ''data'' =
   Inr \<lparr>Directory = ''data'', FilesProcessed = 2, TotalLines = 2, UniqueLabels = 2,
        LabelCounts = [(''cat'', 1), (''dog'', 1)],
        SortedLabels = [\<lparr>Label = ''cat'', Count = 1\<rparr>, \<lparr>Label = ''dog'', Count = 1\<rparr>],
        Errors = [ReadFailed ''data/sub/b.JSON'' ''unexpected EOF'']\<rparr>\<close>
proof -
  have bad: \<open>Unmarshal example_lib ''{"label": "x"'' = None\<close>
    by (simp add: example_lib_def)
  have full: "UseFastParse (example_config\<lparr>UseFastParse := False\<rparr>) = False"
    by simp
  have without: \<open>countLabels example_lib example_tree
     (example_fs(''data/a.jsonl'' := Opened ([''{"label":"cat"}''] @ [''{"label":"dog"}'']) None))
     rev (example_config\<lparr>UseFastParse := False\<rparr>) ''data'' =
   Inr \<lparr>Directory = ''data'', FilesProcessed = 2, TotalLines = 2, UniqueLabels = 2,
        LabelCounts = [(''cat'', 1), (''dog'', 1)],
        SortedLabels = [\<lparr>Label = ''cat'', Count = 1\<rparr>, \<lparr>Label = ''dog'', Count = 1\<rparr>],
        Errors = [ReadFailed ''data/sub/b.JSON'' ''unexpected EOF'']\<rparr>\<close>
    by code_simp
  show ?thesis
    using C6_unparseable_line_is_skipped
      [OF bad full, where key = "''label''" and fs = example_fs and p = "''data/a.jsonl''" and
        before = \<open>[''{"label":"cat"}'']\<close> and after = \<open>[''{"label":"dog"}'']\<close> and
        err = None and tree = example_tree and arrival = rev and directory = "''data''"]
      bad without
    by simp
qed

section \<open>The text of a value under the full parse\<close>








section \<open>When a run aborts\<close>

lemma walk_spec:
  "\<not> has_unreadable n \<Longrightarrow> walk path n files = (files @ json_files path n, None)"
  "\<not> list_ex has_unreadable es \<Longrightarrow>
     walk_entries path es files =
       (files @ concat (map (\<lambda>e. json_files (Join path (node_name e)) e) es), None)"
  by (induction path n files and path es files rule: walk_walk_entries.induct) auto

lemma walk_fails:
  "has_unreadable n \<Longrightarrow> snd (walk path n files) \<noteq> None"
  "list_ex has_unreadable es \<Longrightarrow> snd (walk_entries path es files) \<noteq> None"
  by (induction path n files and path es files rule: walk_walk_entries.induct)
     (auto split: prod.splits option.splits)

text \<open>
  Claim C8. \<^verbatim>\<open>countLabels\<close> returns an error instead of a report in exactly two cases,
  and both are decided by the directory tree alone: the walk fails (some entry of the
  tree cannot be read), which gives the collection error, or the walk succeeds and the
  tree holds no file whose lower-cased extension is \<^verbatim>\<open>.jsonl\<close> or \<^verbatim>\<open>.json\<close>, which gives
  the no-files error. The contents of the files, readable or not, the workers and the
  arrival order play no part, so no failure of a single file aborts the run.
\<close>

theorem C8_abort_iff_walk_fails_or_no_json_file:
  "(isl (countLabels lib tree fs arrival config directory) \<longleftrightarrow>
      has_unreadable tree \<or> json_files directory tree = []) \<and>
   (has_unreadable tree \<longrightarrow>
      (\<exists>cause. countLabels lib tree fs arrival config directory = Inl (CollectFailed cause))) \<and>
   (\<not> has_unreadable tree \<and> json_files directory tree = [] \<longrightarrow>
      countLabels lib tree fs arrival config directory = Inl NoFilesFound)"
proof (cases "has_unreadable tree")
  case True
  then obtain files cause where "collectJSONLFiles tree directory = (files, Some cause)"
    using walk_fails(1) [where n = tree and path = directory and files = "[]"]
    by (cases "collectJSONLFiles tree directory") (auto simp: collectJSONLFiles_def)
  with True show ?thesis
    by (simp add: countLabels_def)
next
  case False
  then have "collectJSONLFiles tree directory = (json_files directory tree, None)"
    using walk_spec(1) [where n = tree and path = directory and files = "[]"]
    by (simp add: collectJSONLFiles_def)
  with False show ?thesis
    by (auto simp: countLabels_def Let_def split: prod.splits)
qed

theorem C8_abort_witness:
  "has_unreadable example_broken_tree \<and>
   countLabels example_lib example_broken_tree example_fs rev example_config ''data'' =
     Inl (CollectFailed ''permission denied'') \<and>
   \<not> has_unreadable example_empty_tree \<and> json_files ''data'' example_empty_tree = [] \<and>
   countLabels example_lib example_empty_tree example_fs rev example_config ''data'' =
     Inl NoFilesFound \<and>
   \<not> has_unreadable example_tree \<and> json_files ''data'' example_tree \<noteq> [] \<and>
   \<not> isl (countLabels example_lib example_tree example_fs rev example_config ''data'')"
proof -
  have broken: "has_unreadable example_broken_tree"
    by (simp add: example_broken_tree_def)
  have empty: "\<not> has_unreadable example_empty_tree" "json_files ''data'' example_empty_tree = []"
    by code_simp+
  have full: "\<not> has_unreadable example_tree" "json_files ''data'' example_tree \<noteq> []"
    by code_simp+
  have "countLabels example_lib example_broken_tree example_fs rev example_config ''data'' =
     Inl (CollectFailed ''permission denied'')"
    by code_simp
  moreover have
    "countLabels example_lib example_empty_tree example_fs rev example_config ''data'' =
       Inl NoFilesFound"
    using empty
      C8_abort_iff_walk_fails_or_no_json_file
        [of example_lib example_empty_tree example_fs rev example_config "''data''"]
    by simp
  moreover have
    "\<not> isl (countLabels example_lib example_tree example_fs rev example_config ''data'')"
    using full
      C8_abort_iff_walk_fails_or_no_json_file
        [of example_lib example_tree example_fs rev example_config "''data''"]
    by simp
  ultimately show ?thesis
    using broken empty full by simp
qed

section \<open>Totals\<close>

lemma scan_lines_sum:
  "scan_lines lib key fast lines (c, n) = (c', n') \<Longrightarrow>
     sum_list (map snd c') - n' = sum_list (map snd c) - n"
proof (induction lines arbitrary: c n)
  case Nil
  then show ?case by simp
next
  case (Cons line rest)
  then show ?case
    by (auto simp: sum_add_count split: if_splits option.splits)
qed

lemma processFile_sum:
  "processFile lib fs p key fast = (c, n, e) \<Longrightarrow> sum_list (map snd c) = n"
  by (auto simp: processFile_def split: file_content.splits prod.splits option.splits
      dest!: scan_lines_sum)

lemma worker_sum:
  "sum_list (map snd (Counts (worker lib fs fast job))) = Lines (worker lib fs fast job)"
  by (auto simp: worker_def split: prod.splits dest: processFile_sum)

lemma collect_results_sum:
  "\<forall>r \<in> set rs. sum_list (map snd (Counts r)) = Lines r \<Longrightarrow>
   collect_results rs (t, n, es) = (t', n', es') \<Longrightarrow>
     sum_list (map snd t') - n' = sum_list (map snd t) - n"
proof (induction rs arbitrary: t n es)
  case Nil
  then show ?case by simp
next
  case (Cons r rs)
  show ?case
  proof (cases "Error r")
    case None
    with Cons.prems have
      "collect_results rs (merge_counts t (Counts r), n + Lines r, es) = (t', n', es')"
      by simp
    from Cons.IH [OF _ this] Cons.prems(1) show ?thesis
      by (simp add: sum_merge_counts)
  next
    case (Some e)
    with Cons.prems have "collect_results rs (t, n, es @ [e]) = (t', n', es')"
      by simp
    from Cons.IH [OF _ this] Cons.prems(1) show ?thesis
      by simp
  qed
qed

text \<open>
  Claim C9. In every report that \<^verbatim>\<open>countLabels\<close> returns, the counts of the frequency
  table add up to \<open>TotalLines\<close> (in \<^verbatim>\<open>int64\<close> arithmetic). This holds whatever files
  failed: a file's counts and its line count are merged together or skipped together,
  and within a file the line counter goes up once for each counted value.
\<close>

theorem C9_counts_sum_to_total_lines:
  assumes "countLabels lib tree fs arrival config directory = Inr r"
  shows "sum_list (map snd (LabelCounts r)) = TotalLines r"
proof -
  obtain files where walk: "collectJSONLFiles tree directory = (files, None)"
    using assms by (auto simp: countLabels_def split: prod.splits option.splits)
  define results where
    "results = (if Workers config \<le> 0 then []
       else map (worker lib fs (UseFastParse config))
         (arrival (map (\<lambda>path. \<lparr>FilePath = path, Job_LabelKey = LabelKey config\<rparr>) files)))"
  obtain t n es where coll: "collect_results results ([], 0, []) = (t, n, es)"
    by (cases "collect_results results ([], 0, [])") auto
  have inv: "\<forall>w \<in> set results. sum_list (map snd (Counts w)) = Lines w"
    by (auto simp: results_def worker_sum)
  have "sum_list (map snd t) = n"
    using collect_results_sum [OF inv coll] by simp
  moreover have "LabelCounts r = t" "TotalLines r = n"
    using assms walk coll
    by (auto simp: countLabels_def results_def Let_def split: if_splits)
  ultimately show ?thesis by simp
qed

theorem C9_counts_sum_witness:
  "countLabels example_lib example_tree example_fs rev example_config ''data'' =
     Inr example_report \<and>
   Errors example_report \<noteq> [] \<and>
   sum_list (map snd (LabelCounts example_report)) = TotalLines example_report"
  using example_run C9_counts_sum_to_total_lines [OF example_run]
  by (simp add: example_report_def)

text \<open>
  Claim C10. In every report that \<^verbatim>\<open>countLabels\<close> returns, \<open>FilesProcessed\<close> is the
  number of files that the directory walk collected, whatever happened to these files
  afterwards: a file that could not be opened or read is counted all the same.
\<close>

theorem C10_files_processed_is_files_collected:
  "countLabels lib tree fs arrival config directory = Inr r \<Longrightarrow>
     FilesProcessed r = int (length (fst (collectJSONLFiles tree directory)))"
  by (auto simp: countLabels_def Let_def split: prod.splits option.splits if_splits)

theorem C10_files_processed_witness:
  "countLabels example_lib example_tree example_fs rev example_config ''data'' =
     Inr example_report \<and>
   fst (collectJSONLFiles example_tree ''data'') = [''data/a.jsonl'', ''data/sub/b.JSON''] \<and>
   Errors example_report = [ReadFailed ''data/sub/b.JSON'' ''unexpected EOF''] \<and>
   FilesProcessed example_report = 2"
proof -
  have files: "fst (collectJSONLFiles example_tree ''data'') =
      [''data/a.jsonl'', ''data/sub/b.JSON'']"
    by code_simp
  show ?thesis
    using example_run C10_files_processed_is_files_collected [OF example_run] files
    by (simp add: example_report_def)
qed

section \<open>A file that fails while it is read\<close>

lemma collect_results_cong:
  assumes "\<forall>j \<in> set js. Error (w1 j) = Error (w2 j) \<and> (Error (w2 j) = None \<longrightarrow> w1 j = w2 j)"
  shows "collect_results (map w1 js) (t, n, es) = collect_results (map w2 js) (t, n, es)"
  using assms
proof (induction js arbitrary: t n es)
  case Nil
  then show ?case by simp
next
  case (Cons j js)
  have same: "Error (w1 j) = Error (w2 j)"
    using Cons.prems by auto
  have rest: "collect_results (map w1 js) (t', n', es') = collect_results (map w2 js) (t', n', es')"
    for t' n' es'
    using Cons.prems by (intro Cons.IH) auto
  show ?case
  proof (cases "Error (w2 j)")
    case None
    then have "w1 j = w2 j"
      using Cons.prems by auto
    with None show ?thesis
      by (simp add: rest)
  next
    case (Some e)
    with same have "Error (w1 j) = Some e"
      by simp
    with Some show ?thesis
      by (simp add: rest)
  qed
qed

lemma worker_failed_scan:
  assumes "fs p = Opened lines (Some cause)"
  shows "Error (worker lib fs fast j) = Some (ReadFailed p cause) \<longleftrightarrow> FilePath j = p"
proof (cases "fs (FilePath j)")
  case (CannotOpen c)
  with assms show ?thesis
    by (auto simp: worker_def processFile_def)
next
  case (Opened ls err)
  with assms show ?thesis
    by (cases err) (auto simp: worker_def processFile_def split: prod.splits)
qed

lemma worker_other_file:
  "FilePath j \<noteq> p \<Longrightarrow> worker lib (fs(p := c)) fast j = worker lib fs fast j"
  by (simp add: worker_def processFile_def)

lemma count_list_map_filter:
  "count_list (List.map_filter f xs) e = length (filter (\<lambda>x. f x = Some e) xs)"
  by (induction xs) (auto split: option.splits)

lemma length_filter_mset:
  assumes "mset xs = mset ys"
  shows "length (filter P xs) = length (filter P ys)"
proof -
  have "mset (filter P xs) = mset (filter P ys)"
    using assms by simp
  then show ?thesis
    by (rule mset_eq_length)
qed

lemma count_list_length_filter: "count_list xs y = length (filter (\<lambda>x. x = y) xs)"
  by (induction xs) auto

text \<open>
  Claim C1, as the code has it. Let the scan of a file fail after some lines. With at
  least one worker and every job completing once, the error list of the report holds
  the read error of that file with its path, once for each time the walk collected the
  path. The counts and the line total that the file had accumulated before the failure
  are not merged: the report is the one of the run in which the file fails before its
  first line.
\<close>

theorem C1_failed_scan_is_reported_and_its_counts_dropped:
  assumes "fs p = Opened lines (Some cause)"
    and "countLabels lib tree fs arrival config directory = Inr r"
    and "0 < Workers config"
    and "\<forall>js. mset (arrival js) = mset js"
  shows
    "count_list (Errors r) (ReadFailed p cause) =
       count_list (fst (collectJSONLFiles tree directory)) p \<and>
     countLabels lib tree (fs(p := Opened [] (Some cause))) arrival config directory = Inr r"
proof -
  obtain files where walk: "collectJSONLFiles tree directory = (files, None)"
    using assms(2) by (auto simp: countLabels_def split: prod.splits option.splits)
  define jobs where
    "jobs = map (\<lambda>path. \<lparr>FilePath = path, Job_LabelKey = LabelKey config\<rparr>) files"
  define w where "w = worker lib fs (UseFastParse config)"
  define w0 where "w0 = worker lib (fs(p := Opened [] (Some cause))) (UseFastParse config)"
  obtain t n es where c: "collect_results (map w (arrival jobs)) ([], 0, []) = (t, n, es)"
    by (cases "collect_results (map w (arrival jobs)) ([], 0, [])") auto
  have r: "Errors r = es"
    using assms(2,3) walk c
    by (auto simp: countLabels_def w_def jobs_def Let_def split: if_splits)
  have es: "es = List.map_filter Error (map w (arrival jobs))"
    using collect_results_general [OF c] by simp
  have failed: "Error (w j) = Some (ReadFailed p cause) \<longleftrightarrow> FilePath j = p" for j
    unfolding w_def by (rule worker_failed_scan [where fs = fs and p = p, OF assms(1)])
  have "count_list es (ReadFailed p cause) =
      length (filter (\<lambda>x. Error x = Some (ReadFailed p cause)) (map w (arrival jobs)))"
    by (simp only: es count_list_map_filter)
  also have "\<dots> = length (filter (\<lambda>j. FilePath j = p) (arrival jobs))"
    by (simp add: filter_map comp_def failed)
  also have "\<dots> = length (filter (\<lambda>j. FilePath j = p) jobs)"
    using assms(4) by (intro length_filter_mset) simp
  also have "\<dots> = length (filter (\<lambda>path. path = p) files)"
    by (simp add: jobs_def filter_map comp_def)
  also have "\<dots> = count_list files p"
    by (simp only: count_list_length_filter)
  finally have errors: "count_list (Errors r) (ReadFailed p cause) =
      count_list (fst (collectJSONLFiles tree directory)) p"
    by (simp add: r walk)
  have same: "collect_results (map w0 js) (t, n, es) = collect_results (map w js) (t, n, es)"
    for js t n es
  proof (rule collect_results_cong, rule ballI)
    fix j
    show "Error (w0 j) = Error (w j) \<and> (Error (w j) = None \<longrightarrow> w0 j = w j)"
    proof (cases "FilePath j = p")
      case True
      have "Error (w j) = Some (ReadFailed p cause)"
        using failed True by simp
      moreover have "Error (w0 j) = Some (ReadFailed p cause)"
        using True by (simp add: w0_def worker_def processFile_def)
      ultimately show ?thesis by simp
    next
      case False
      then show ?thesis
        by (simp add: w0_def w_def worker_other_file)
    qed
  qed
  have "countLabels lib tree (fs(p := Opened [] (Some cause))) arrival config directory =
      countLabels lib tree fs arrival config directory"
    using walk by (simp add: countLabels_def Let_def same [unfolded w0_def w_def])
  with errors assms(2) show ?thesis
    by simp
qed

theorem C1_failed_scan_witness:
  \<open>example_fs ''data/sub/b.JSON'' =
     Opened [''{"label":"cat"}'', ''{"label":"dog"}''] (Some ''unexpected EOF'') \<and>
   0 < Workers example_config \<and>
   countLabels example_lib example_tree example_fs rev example_config ''data'' =
     Inr example_report \<and>
   count_list (Errors example_report) (ReadFailed ''data/sub/b.JSON'' ''unexpected EOF'') = 1 \<and>
   countLabels example_lib example_tree
     (example_fs(''data/sub/b.JSON'' := Opened [] (Some ''unexpected EOF'')))
     rev example_config ''data'' = Inr example_report\<close>
proof -
  have failing: \<open>example_fs ''data/sub/b.JSON'' =
     Opened [''{"label":"cat"}'', ''{"label":"dog"}''] (Some ''unexpected EOF'')\<close>
    by (simp add: example_fs_def)
  have workers: "0 < Workers example_config"
    by (simp add: example_config_def)
  have perm: "\<forall>js :: Job list. mset (rev js) = mset js"
    by simp
  have files: "fst (collectJSONLFiles example_tree ''data'') =
      [''data/a.jsonl'', ''data/sub/b.JSON'']"
    by code_simp
  note inst = C1_failed_scan_is_reported_and_its_counts_dropped
      [OF failing example_run workers perm]
  have "count_list (Errors example_report) (ReadFailed ''data/sub/b.JSON'' ''unexpected EOF'') = 1"
    using inst [THEN conjunct1] by (simp add: files)
  with failing workers example_run inst [THEN conjunct2] show ?thesis
    by (simp only: simp_thms)
qed

text \<open>
  Claim C1 as the specification states it fails on the small corpus: the second file
  yields cat and dog before its scan fails, and neither of the two reaches the table or
  the line total of the report, which are those of the first file alone.
\<close>

theorem C1_partial_counts_counterexample:
  \<open>processFile example_lib example_fs ''data/sub/b.JSON'' ''label'' True =
     ([(''cat'', 1), (''dog'', 1)], 2, Some (ReadFailed ''data/sub/b.JSON'' ''unexpected EOF'')) \<and>
   processFile example_lib example_fs ''data/a.jsonl'' ''label'' True =
     ([(''cat'', 2), (''dog'', 1)], 3, None) \<and>
   countLabels example_lib example_tree example_fs rev example_config ''data'' =
     Inr example_report \<and>
   LabelCounts example_report = [(''cat'', 2), (''dog'', 1)] \<and>
   TotalLines example_report = 3 \<and>
   count_of (LabelCounts example_report) ''cat'' \<noteq> 2 + 1 \<and>
   count_of (LabelCounts example_report) ''dog'' \<noteq> 1 + 1 \<and>
   TotalLines example_report \<noteq> 3 + 2\<close>
proof -
  have \<open>processFile example_lib example_fs ''data/sub/b.JSON'' ''label'' True =
     ([(''cat'', 1), (''dog'', 1)], 2, Some (ReadFailed ''data/sub/b.JSON'' ''unexpected EOF''))\<close>
    by code_simp
  moreover have \<open>processFile example_lib example_fs ''data/a.jsonl'' ''label'' True =
     ([(''cat'', 2), (''dog'', 1)], 3, None)\<close>
    by code_simp
  moreover have "LabelCounts example_report = [(''cat'', 2), (''dog'', 1)]"
    "TotalLines example_report = 3"
    "count_of (LabelCounts example_report) ''cat'' \<noteq> 2 + 1"
    "count_of (LabelCounts example_report) ''dog'' \<noteq> 1 + 1"
    "TotalLines example_report \<noteq> 3 + 2"
    by (simp_all add: example_report_def count_of_def)
  ultimately show ?thesis
    using example_run by (simp only: simp_thms)
qed

section \<open>The key of the fast extractor\<close>

text \<open>
  Claim C2 asks that the fast extractor look for the configured key. The code looks for
  the fixed key \<^verbatim>\<open>label\<close>: the fast branch never reads \<^verbatim>\<open>labelKey\<close>, so its result is
  the same for every configured key. With the key \<^verbatim>\<open>name\<close> configured, a line that has
  both fields yields the value of \<^verbatim>\<open>label\<close>, and a line that has only \<^verbatim>\<open>name\<close> yields
  nothing, while the full parse of the same lines yields the value of \<^verbatim>\<open>name\<close>.
\<close>

theorem C2_fast_extractor_uses_fixed_key:
  \<open>extract_label lib key True line = extract_label lib ''label'' True line \<and>
   extract_label example_lib ''name'' True ''{"name":"x","label":"y"}'' = Some ''y'' \<and>
   extract_label example_lib ''name'' False ''{"name":"x","label":"y"}'' = Some ''x'' \<and>
   extract_label example_lib ''name'' True ''{"name":"x"}'' = Some [] \<and>
   extract_label example_lib ''name'' False ''{"name":"x"}'' = Some ''x''\<close>
proof -
  have "extract_label lib key True line = extract_label lib ''label'' True line"
    by (simp add: extract_label_def)
  moreover have
    \<open>extract_label example_lib ''name'' True ''{"name":"x","label":"y"}'' = Some ''y''\<close>
    by code_simp
  moreover have
    \<open>extract_label example_lib ''name'' False ''{"name":"x","label":"y"}'' = Some ''x''\<close>
    by (simp add: extract_label_def example_lib_def)
  moreover have \<open>extract_label example_lib ''name'' True ''{"name":"x"}'' = Some []\<close>
    by code_simp
  moreover have \<open>extract_label example_lib ''name'' False ''{"name":"x"}'' = Some ''x''\<close>
    by (simp add: extract_label_def example_lib_def)
  ultimately show ?thesis
    by (simp only: simp_thms)
qed

end
